theory Spec2Isabelle
  imports Complex_Main "HOL-Library.Word" "HOL-Library.Signed_Division"
begin

unbundle bit_operations_syntax

section \<open>The sharded CLOCK cache of models/cache.go\<close>

text \<open>
  The storage engine is the Go package \<open>models\<close>: a \<open>ShardedCache\<close> owning an array of
  \<open>CacheShard\<close>s, each with a value map, a map from keys to the nodes of a doubly linked
  list (\<open>container/list\<close>), the list itself and a clock hand pointing into it.

  Modelling choices.
  \<^item> A \<open>*list.Element\<close> is an address (\<open>elem\<close>, a natural number); the \<open>*ClockItem\<close> that
    the element carries in \<open>Value\<close> is read through \<open>elemValue\<close>, the store of the shard.
    \<open>PushBack\<close> allocates the address \<open>nextElem\<close>. The list is the sequence of the
    addresses of its nodes, front first. A removed element keeps its payload, as in Go;
    \<open>nil\<close> is \<open>None\<close>.
  \<^item> Go's \<open>int64\<close> (\<open>memUsage\<close>, \<open>size\<close>) is \<open>64 word\<close>: \<open>atomic.AddInt64\<close> wraps.
    Go's \<open>uint32\<close> is \<open>32 word\<close>. Go's \<open>int\<close> for counts and loop counters is \<open>int\<close>:
    they are bounded by list lengths and by the requested count, and never overflow.
  \<^item> A run-time panic is a value of \<open>error\<close>; every operation returns \<open>error + result\<close>.
  \<^item> Operations take the cache and return the updated cache: the model is the sequential
    behaviour, with each operation running alone under its shard lock.
  \<^item> \<open>float64\<close> is only compared, in the memory monitor; the sampled ratio is a parameter
    of type \<open>real\<close>.
\<close>

subsection \<open>Data\<close>

type_synonym elem = nat

datatype error = DivideByZero | IndexOutOfRange | NilDereference | CloseOfClosedChannel

record ClockItem =
  key :: string
  referenced :: bool
  size' :: "64 word"

record CacheShard =
  items :: "string \<rightharpoonup> string"
  elements :: "string \<rightharpoonup> elem"
  clockHand :: "elem option"
  itemsList :: "elem list"
  elemValue :: "elem \<Rightarrow> ClockItem"
  nextElem :: elem

record ShardedCache =
  shards :: "CacheShard list"
  shardCount :: int
  maxMemoryPct :: real
  memUsage :: "64 word"
  stopChan :: bool

definition DefaultShards :: int where
  "DefaultShards = 1024"

definition MaxMemoryPercent :: real where
  "MaxMemoryPercent = 0.7"

definition EvictionBatchSize :: int where
  "EvictionBatchSize = 200"

subsection \<open>Construction\<close>

text \<open>A shard as \<open>NewCache\<close> allocates it: empty maps, \<open>list.New()\<close>, a nil clock hand.\<close>

definition newShard :: CacheShard where
  "newShard = \<lparr>items = Map.empty, elements = Map.empty, clockHand = None, itemsList = [],
     elemValue = (\<lambda>_. \<lparr>key = [], referenced = False, size' = 0\<rparr>), nextElem = 0\<rparr>"

text \<open>The body of \<open>NewCache\<close> with the shard count as a parameter; \<open>stopChan\<close> is open.\<close>

definition newCacheOf :: "nat \<Rightarrow> ShardedCache" where
  "newCacheOf n = \<lparr>shards = replicate n newShard, shardCount = int n,
     maxMemoryPct = MaxMemoryPercent, memUsage = 0, stopChan = False\<rparr>"

definition NewCache :: ShardedCache where
  "NewCache = newCacheOf (nat DefaultShards)"

subsection \<open>Hash routing\<close>

fun fnv32_loop :: "32 word \<Rightarrow> string \<Rightarrow> 32 word" where
  "fnv32_loop hash [] = hash"
| "fnv32_loop hash (c # cs) = fnv32_loop ((hash * 16777619) XOR of_char c) cs"

definition fnv32 :: "string \<Rightarrow> 32 word" where
  "fnv32 k = fnv32_loop 2166136261 k"

text \<open>
  \<open>getShard\<close> returns the index of the shard in \<open>c.shards\<close> (the shard pointers of the array
  are pairwise different objects). \<open>hash % uint32(c.shardCount)\<close> panics when the
  converted count is zero, and the indexing panics out of range.
\<close>

definition getShard :: "ShardedCache \<Rightarrow> string \<Rightarrow> error + nat" where
  "getShard c k =
     (let hash = fnv32 k;
          n = (word_of_int (shardCount c) :: 32 word)
      in if n = 0 then Inl DivideByZero
         else let i = unat (hash mod n)
              in if i < length (shards c) then Inr i else Inl IndexOutOfRange)"

subsection \<open>Get and Put\<close>

definition Get :: "ShardedCache \<Rightarrow> string \<Rightarrow> error + ((string \<times> bool) \<times> ShardedCache)" where
  "Get c k =
     (case getShard c k of
        Inl e \<Rightarrow> Inl e
      | Inr i \<Rightarrow>
          let shard = shards c ! i
          in (case items shard k of
                Some val \<Rightarrow>
                  let shard1 =
                        (case elements shard k of
                           Some el \<Rightarrow>
                             shard\<lparr>elemValue := (elemValue shard)
                               (el := (elemValue shard el)\<lparr>referenced := True\<rparr>)\<rparr>
                         | None \<Rightarrow> shard)
                  in Inr ((val, True), c\<lparr>shards := (shards c)[i := shard1]\<rparr>)
              | None \<Rightarrow> Inr (([], False), c)))"

definition Put :: "ShardedCache \<Rightarrow> string \<Rightarrow> string \<Rightarrow> error + ShardedCache" where
  "Put c k v =
     (case getShard c k of
        Inl e \<Rightarrow> Inl e
      | Inr i \<Rightarrow>
          let shard = shards c ! i;
              valueSize = (word_of_nat (length v) :: 64 word);
              keySize = (word_of_nat (length k) :: 64 word);
              totalSize = keySize + valueSize
          in (case items shard k of
                Some oldVal \<Rightarrow>
                  let shard1 = shard\<lparr>items := (items shard)(k \<mapsto> v)\<rparr>;
                      oldSize = (word_of_nat (length oldVal) :: 64 word);
                      sizeDiff = valueSize - oldSize;
                      mem1 = (if sizeDiff \<noteq> 0 then memUsage c + sizeDiff else memUsage c);
                      shard2 =
                        (case elements shard1 k of
                           Some el \<Rightarrow>
                             shard1\<lparr>elemValue := (elemValue shard1)
                               (el := (elemValue shard1 el)\<lparr>referenced := True, size' := totalSize\<rparr>)\<rparr>
                         | None \<Rightarrow> shard1)
                  in Inr (c\<lparr>shards := (shards c)[i := shard2], memUsage := mem1\<rparr>)
              | None \<Rightarrow>
                  let shard1 = shard\<lparr>items := (items shard)(k \<mapsto> v)\<rparr>;
                      item = \<lparr>key = k, referenced = True, size' = totalSize\<rparr>;
                      element = nextElem shard1;
                      shard2 = shard1\<lparr>itemsList := itemsList shard1 @ [element],
                                 elemValue := (elemValue shard1)(element := item),
                                 nextElem := Suc element\<rparr>;
                      shard3 = shard2\<lparr>elements := (elements shard2)(k \<mapsto> element)\<rparr>;
                      shard4 = (if clockHand shard3 = None
                                then shard3\<lparr>clockHand := Some element\<rparr> else shard3)
                  in Inr (c\<lparr>shards := (shards c)[i := shard4],
                            memUsage := memUsage c + totalSize\<rparr>)))"

subsection \<open>The CLOCK sweep\<close>

text \<open>\<open>l.Front()\<close>: the first node, nil for the empty list.\<close>

definition listFront :: "elem list \<Rightarrow> elem option" where
  "listFront l = (case l of [] \<Rightarrow> None | x # _ \<Rightarrow> Some x)"

text \<open>\<open>e.Next()\<close>: the node after \<open>e\<close>; nil when \<open>e\<close> is the last node or not in the list.\<close>

fun elemNext :: "elem \<Rightarrow> elem list \<Rightarrow> elem option" where
  "elemNext e [] = None"
| "elemNext e (x # xs) = (if x = e then listFront xs else elemNext e xs)"

definition nextOrFirst :: "elem \<Rightarrow> elem list \<Rightarrow> elem option" where
  "nextOrFirst e l = (if elemNext e l = None then listFront l else elemNext e l)"

text \<open>
  The loop of \<open>evict\<close>, with its local variables as arguments. It returns the final
  \<open>evicted\<close> and \<open>attempts\<close> with the shard. Reading \<open>s.clockHand.Value\<close> through a nil
  hand is the panic \<open>NilDereference\<close>.
\<close>

function evictLoop :: "int \<Rightarrow> int \<Rightarrow> int \<Rightarrow> int \<Rightarrow> CacheShard \<Rightarrow> error + (int \<times> int \<times> CacheShard)" where
  "evictLoop count maxAttempts evicted attempts s =
     (if evicted < count \<and> attempts < maxAttempts then
        (case clockHand s of
           None \<Rightarrow> Inl NilDereference
         | Some h \<Rightarrow>
             let item = elemValue s h
             in if referenced item then
                  evictLoop count maxAttempts evicted (attempts + 1)
                    (s\<lparr>elemValue := (elemValue s)(h := item\<lparr>referenced := False\<rparr>),
                       clockHand := nextOrFirst h (itemsList s)\<rparr>)
                else
                  let next = nextOrFirst h (itemsList s);
                      s1 = s\<lparr>items := (items s)(key item := None),
                             elements := (elements s)(key item := None),
                             itemsList := remove1 h (itemsList s),
                             clockHand := next\<rparr>
                  in if int (length (itemsList s1)) = 0
                     then Inr (evicted + 1, attempts + 1, s1\<lparr>clockHand := None\<rparr>)
                     else evictLoop count maxAttempts (evicted + 1) (attempts + 1) s1)
      else Inr (evicted, attempts, s))"
  by pat_completeness auto
termination
  by (relation "measure (\<lambda>(count, maxAttempts, evicted, attempts, s). nat (maxAttempts - attempts))") auto

definition evict :: "CacheShard \<Rightarrow> int \<Rightarrow> error + (int \<times> CacheShard)" where
  "evict s count =
     (if clockHand s = None \<or> int (length (itemsList s)) = 0 then Inr (0, s)
      else (case evictLoop count (int (length (itemsList s)) * 2) 0 0 s of
              Inl e \<Rightarrow> Inl e
            | Inr (evicted, attempts, s') \<Rightarrow> Inr (evicted, s')))"

subsection \<open>Batched eviction and the memory monitor\<close>

text \<open>
  The loop of \<open>evictBatch\<close> over the shard index \<open>i\<close>. \<open>c.shards[i]\<close> panics out of range.
  It returns the final running total with the cache.
\<close>

function evictBatchLoop :: "int \<Rightarrow> int \<Rightarrow> int \<Rightarrow> int \<Rightarrow> ShardedCache \<Rightarrow> error + (int \<times> ShardedCache)" where
  "evictBatchLoop count perShardCount i evicted c =
     (if i < shardCount c \<and> evicted < count then
        (if i < 0 \<or> int (length (shards c)) \<le> i then Inl IndexOutOfRange
         else (case evict (shards c ! nat i) perShardCount of
                 Inl e \<Rightarrow> Inl e
               | Inr (n, shard') \<Rightarrow>
                   evictBatchLoop count perShardCount (i + 1) (evicted + n)
                     (c\<lparr>shards := (shards c)[nat i := shard']\<rparr>)))
      else Inr (evicted, c))"
  by pat_completeness auto
termination
  by (relation "measure (\<lambda>(count, perShardCount, i, evicted, c). nat (shardCount c - i))") auto

text \<open>Go's \<open>/\<close> on \<open>int\<close> truncates towards zero (\<open>sdiv\<close>) and panics on a zero divisor.\<close>

definition evictBatch :: "ShardedCache \<Rightarrow> int \<Rightarrow> error + ShardedCache" where
  "evictBatch c count =
     (if shardCount c = 0 then Inl DivideByZero
      else let perShardCount = count sdiv shardCount c;
               perShardCount = (if perShardCount < 1 then 1 else perShardCount)
           in (case evictBatchLoop count perShardCount 0 0 c of
                 Inl e \<Rightarrow> Inl e
               | Inr (evicted, c') \<Rightarrow> Inr c'))"

text \<open>
  One tick of \<open>monitorMemory\<close>: \<open>memRatio\<close> is the sampled \<open>float64(m.Alloc) / float64(m.Sys)\<close>.
\<close>

definition monitorTick :: "ShardedCache \<Rightarrow> real \<Rightarrow> error + ShardedCache" where
  "monitorTick c memRatio =
     (if memRatio > maxMemoryPct c then
        let evictionCount = EvictionBatchSize;
            evictionCount = (if memRatio > 0.85 then evictionCount * 2 else evictionCount)
        in evictBatch c evictionCount
      else Inr c)"

definition Close :: "ShardedCache \<Rightarrow> error + ShardedCache" where
  "Close c = (if stopChan c then Inl CloseOfClosedChannel else Inr (c\<lparr>stopChan := True\<rparr>))"

subsection \<open>Sequences of calls\<close>

text \<open>
  The calls the engine receives: the two public operations, the eviction trigger and a
  monitor tick with its sampled ratio. A run stops at the first panic.
\<close>

datatype call = CallGet string | CallPut string string | CallEvictBatch int | CallMonitorTick real

fun step :: "ShardedCache \<Rightarrow> call \<Rightarrow> error + ShardedCache" where
  "step c (CallGet k) = (case Get c k of Inl e \<Rightarrow> Inl e | Inr (r, c') \<Rightarrow> Inr c')"
| "step c (CallPut k v) = Put c k v"
| "step c (CallEvictBatch n) = evictBatch c n"
| "step c (CallMonitorTick r) = monitorTick c r"

fun run :: "ShardedCache \<Rightarrow> call list \<Rightarrow> error + ShardedCache" where
  "run c [] = Inr c"
| "run c (x # xs) = (case step c x of Inl e \<Rightarrow> Inl e | Inr c' \<Rightarrow> run c' xs)"

text \<open>What \<open>Get\<close> returns after a run, and the counter after a run.\<close>

definition lookupAfter :: "ShardedCache \<Rightarrow> call list \<Rightarrow> string \<Rightarrow> error + (string \<times> bool)" where
  "lookupAfter c xs k =
     (case run c xs of
        Inl e \<Rightarrow> Inl e
      | Inr c' \<Rightarrow> (case Get c' k of Inl e \<Rightarrow> Inl e | Inr (r, c'') \<Rightarrow> Inr r))"

definition memUsageAfter :: "ShardedCache \<Rightarrow> call list \<Rightarrow> error + 64 word" where
  "memUsageAfter c xs = (case run c xs of Inl e \<Rightarrow> Inl e | Inr c' \<Rightarrow> Inr (memUsage c'))"

subsection \<open>Observations and invariants\<close>

text \<open>The keys carried by the nodes of a shard's queue, front first.\<close>

definition queueKeys :: "CacheShard \<Rightarrow> string list" where
  "queueKeys s = map (\<lambda>e. key (elemValue s e)) (itemsList s)"

text \<open>The number of entries of the cache: the nodes of all queues.\<close>

definition entryCount :: "ShardedCache \<Rightarrow> nat" where
  "entryCount c = sum_list (map (\<lambda>s. length (itemsList s)) (shards c))"

text \<open>The sum of the \<open>size\<close> fields of the live entries, as \<open>int64\<close>.\<close>

definition shardSize :: "CacheShard \<Rightarrow> 64 word" where
  "shardSize s = sum_list (map (\<lambda>e. size' (elemValue s e)) (itemsList s))"

definition liveSize :: "ShardedCache \<Rightarrow> 64 word" where
  "liveSize c = sum_list (map shardSize (shards c))"

definition liveSizeAfter :: "ShardedCache \<Rightarrow> call list \<Rightarrow> error + 64 word" where
  "liveSizeAfter c xs = (case run c xs of Inl e \<Rightarrow> Inl e | Inr c' \<Rightarrow> Inr (liveSize c'))"

text \<open>
  The shard invariant: the queue has no node twice; every node of the queue is an
  allocated address and is the node that \<open>elements\<close> records for the key it carries;
  \<open>elements\<close> and \<open>items\<close> hold exactly the keys the queue carries; the clock hand is a
  node of the queue, and nil exactly when the queue is empty.
\<close>

definition shard_inv :: "CacheShard \<Rightarrow> bool" where
  "shard_inv s \<longleftrightarrow>
     distinct (itemsList s) \<and>
     (\<forall>e \<in> set (itemsList s). e < nextElem s \<and> elements s (key (elemValue s e)) = Some e) \<and>
     dom (elements s) = set (queueKeys s) \<and>
     dom (items s) = set (queueKeys s) \<and>
     (case clockHand s of None \<Rightarrow> itemsList s = [] | Some h \<Rightarrow> h \<in> set (itemsList s))"

text \<open>
  A well-formed cache: \<open>shardCount\<close> is the length of the shard array, positive and
  within \<open>uint32\<close>, as \<open>NewCache\<close> builds it.
\<close>

definition cache_wf :: "ShardedCache \<Rightarrow> bool" where
  "cache_wf c \<longleftrightarrow> shardCount c = int (length (shards c)) \<and> 0 < shardCount c \<and> shardCount c < 2 ^ 32"

definition cache_inv :: "ShardedCache \<Rightarrow> bool" where
  "cache_inv c \<longleftrightarrow> cache_wf c \<and> (\<forall>s \<in> set (shards c). shard_inv s)"

text \<open>Some node of the shard that \<open>k\<close> routes to carries \<open>k\<close>.\<close>

definition holdsKey :: "ShardedCache \<Rightarrow> string \<Rightarrow> bool" where
  "holdsKey c k = (case getShard c k of Inl e \<Rightarrow> False | Inr i \<Rightarrow> k \<in> set (queueKeys (shards c ! i)))"

text \<open>Two caches that agree on everything but the counter \<open>memUsage\<close>.\<close>

definition sameButCounter :: "ShardedCache \<Rightarrow> ShardedCache \<Rightarrow> bool" where
  "sameButCounter c1 c2 \<longleftrightarrow>
     shards c1 = shards c2 \<and> shardCount c1 = shardCount c2 \<and>
     maxMemoryPct c1 = maxMemoryPct c2 \<and> stopChan c1 = stopChan c2"

subsection \<open>The operations seen from one shard\<close>

text \<open>
  What \<open>Get\<close> and \<open>Put\<close> do to the shard they route to, and the delta \<open>Put\<close> adds to the
  counter; what one inspection step of the sweep does. The lemmas \<open>Get_shard\<close>,
  \<open>Put_shard\<close> and \<open>evictLoop_step\<close> below derive them from the definitions above.
\<close>

definition shardGet :: "CacheShard \<Rightarrow> string \<Rightarrow> CacheShard" where
  "shardGet s k =
     (case items s k of
        None \<Rightarrow> s
      | Some val \<Rightarrow>
          (case elements s k of
             None \<Rightarrow> s
           | Some el \<Rightarrow> s\<lparr>elemValue := (elemValue s)(el := (elemValue s el)\<lparr>referenced := True\<rparr>)\<rparr>))"

definition shardLookup :: "CacheShard \<Rightarrow> string \<Rightarrow> string \<times> bool" where
  "shardLookup s k = (case items s k of None \<Rightarrow> ([], False) | Some val \<Rightarrow> (val, True))"

definition entrySize :: "string \<Rightarrow> string \<Rightarrow> 64 word" where
  "entrySize k v = word_of_nat (length k) + word_of_nat (length v)"

definition shardPut :: "CacheShard \<Rightarrow> string \<Rightarrow> string \<Rightarrow> CacheShard" where
  "shardPut s k v =
     (case items s k of
        Some oldVal \<Rightarrow>
          (case elements s k of
             None \<Rightarrow> s\<lparr>items := (items s)(k \<mapsto> v)\<rparr>
           | Some el \<Rightarrow>
               s\<lparr>items := (items s)(k \<mapsto> v),
                 elemValue := (elemValue s)
                   (el := (elemValue s el)\<lparr>referenced := True, size' := entrySize k v\<rparr>)\<rparr>)
      | None \<Rightarrow>
          (let s1 = s\<lparr>items := (items s)(k \<mapsto> v),
                      itemsList := itemsList s @ [nextElem s],
                      elemValue := (elemValue s)
                        (nextElem s := \<lparr>key = k, referenced = True, size' = entrySize k v\<rparr>),
                      nextElem := Suc (nextElem s),
                      elements := (elements s)(k \<mapsto> nextElem s)\<rparr>
           in if clockHand s = None then s1\<lparr>clockHand := Some (nextElem s)\<rparr> else s1))"

definition putDelta :: "CacheShard \<Rightarrow> string \<Rightarrow> string \<Rightarrow> 64 word" where
  "putDelta s k v =
     (case items s k of
        Some oldVal \<Rightarrow> word_of_nat (length v) - word_of_nat (length oldVal)
      | None \<Rightarrow> entrySize k v)"

definition sweepClear :: "CacheShard \<Rightarrow> elem \<Rightarrow> CacheShard" where
  "sweepClear s h =
     s\<lparr>elemValue := (elemValue s)(h := (elemValue s h)\<lparr>referenced := False\<rparr>),
       clockHand := nextOrFirst h (itemsList s)\<rparr>"

definition sweepRemove :: "CacheShard \<Rightarrow> elem \<Rightarrow> CacheShard" where
  "sweepRemove s h =
     s\<lparr>items := (items s)(key (elemValue s h) := None),
       elements := (elements s)(key (elemValue s h) := None),
       itemsList := remove1 h (itemsList s),
       clockHand := nextOrFirst h (itemsList s)\<rparr>"

subsection \<open>The batched eviction as the specification words it\<close>

text \<open>
  The specification: compute \<open>perShard = max(1, totalCount / shardCount)\<close> and call the
  shard's sweep with \<open>perShard\<close> on each shard in turn, summing the results, until all
  shards have been visited once or the running total reaches \<open>totalCount\<close>.
\<close>

fun evictShardsSpec :: "int \<Rightarrow> int \<Rightarrow> int \<Rightarrow> CacheShard list \<Rightarrow> error + (int \<times> CacheShard list)" where
  "evictShardsSpec totalCount perShard running [] = Inr (running, [])"
| "evictShardsSpec totalCount perShard running (s # ss) =
     (if totalCount \<le> running then Inr (running, s # ss)
      else (case evict s perShard of
              Inl e \<Rightarrow> Inl e
            | Inr (n, s') \<Rightarrow>
                (case evictShardsSpec totalCount perShard (running + n) ss of
                   Inl e \<Rightarrow> Inl e
                 | Inr (t, ss') \<Rightarrow> Inr (t, s' # ss'))))"

definition evictBatchSpec :: "ShardedCache \<Rightarrow> int \<Rightarrow> error + (int \<times> ShardedCache)" where
  "evictBatchSpec c totalCount =
     (case evictShardsSpec totalCount (max 1 (totalCount div shardCount c)) 0 (shards c) of
        Inl e \<Rightarrow> Inl e
      | Inr (t, ss) \<Rightarrow> Inr (t, c\<lparr>shards := ss\<rparr>))"

text \<open>What one sweep of a shard that satisfies the invariant returns.\<close>

definition sweepResult :: "CacheShard \<Rightarrow> int \<Rightarrow> int \<Rightarrow> int \<Rightarrow> CacheShard \<Rightarrow> bool" where
  "sweepResult s count ev att s' \<longleftrightarrow>
     shard_inv s' \<and> 0 \<le> ev \<and> ev \<le> max 0 count \<and> 0 \<le> att \<and>
     att \<le> int (length (itemsList s)) * 2 \<and>
     int (length (itemsList s')) + ev = int (length (itemsList s)) \<and>
     (\<forall>k. items s k = None \<longrightarrow> items s' k = None) \<and>
     (att < int (length (itemsList s)) * 2 \<longrightarrow> count \<le> ev \<or> itemsList s' = [])"

text \<open>How a shard is related to the same shard after sweeps.\<close>

definition sweptFrom :: "CacheShard \<Rightarrow> CacheShard \<Rightarrow> bool" where
  "sweptFrom s s' \<longleftrightarrow>
     shard_inv s' \<and> length (itemsList s') \<le> length (itemsList s) \<and>
     (\<forall>k. items s k = None \<longrightarrow> items s' k = None)"

text \<open>
  What every call keeps: the invariant, the routing, and the absence of a key from the
  shard it routes to, unless the call is a \<open>Put\<close> of that key.
\<close>

definition absentKey :: "ShardedCache \<Rightarrow> string \<Rightarrow> bool" where
  "absentKey c k = (case getShard c k of Inl e \<Rightarrow> True | Inr i \<Rightarrow> items (shards c ! i) k = None)"

text \<open>
  A shard into which the pairs \<open>kvs\<close> (with distinct keys) have been put, in this order,
  starting from the empty shard, with no \<open>Get\<close> and no sweep in between.
\<close>

definition filledShard :: "(string \<times> string) list \<Rightarrow> CacheShard \<Rightarrow> bool" where
  "filledShard kvs s \<longleftrightarrow>
     itemsList s = [0..<length kvs] \<and> nextElem s = length kvs \<and>
     clockHand s = listFront [0..<length kvs] \<and> dom (items s) = fst ` set kvs \<and>
     (\<forall>i<length kvs. key (elemValue s i) = fst (kvs ! i) \<and> referenced (elemValue s i) \<and>
        items s (fst (kvs ! i)) = Some (snd (kvs ! i)))"

section \<open>Routing\<close>

declare evictLoop.simps [simp del]
declare evictBatchLoop.simps [simp del]

lemma getShard_less: "getShard c k = Inr i \<Longrightarrow> i < length (shards c)"
  by (auto simp: getShard_def Let_def split: if_splits)

lemma getShard_wf: "cache_wf c \<Longrightarrow> \<exists>i. getShard c k = Inr i"
proof -
  assume wf: "cache_wf c"
  let ?n = "length (shards c)"
  have n: "0 < ?n" "?n < 2 ^ 32" "shardCount c = int ?n"
    using wf by (auto simp: cache_wf_def)
  have u: "unat (of_nat ?n :: 32 word) = ?n"
    using n by (simp add: unat_of_nat)
  have nz: "(of_nat ?n :: 32 word) \<noteq> 0"
    using u n by auto
  have "unat (fnv32 k mod of_nat ?n :: 32 word) < ?n"
    using n by (simp add: unat_mod u)
  then show ?thesis
    using nz n by (simp add: getShard_def Let_def)
qed

lemma getShard_shards_update [simp]:
  "length l = length (shards c) \<Longrightarrow> getShard (c\<lparr>shards := l\<rparr>) k = getShard c k"
  by (simp add: getShard_def Let_def)

lemma getShard_memUsage_update [simp]:
  "getShard (c\<lparr>memUsage := m\<rparr>) k = getShard c k"
  by (simp add: getShard_def Let_def)

lemma Get_alt:
  "Get c k =
     (case getShard c k of
        Inl e \<Rightarrow> Inl e
      | Inr i \<Rightarrow> Inr (shardLookup (shards c ! i) k,
                     c\<lparr>shards := (shards c)[i := shardGet (shards c ! i) k]\<rparr>))"
  by (simp add: Get_def shardLookup_def shardGet_def Let_def split: option.splits sum.splits)

lemma Put_alt:
  "Put c k v =
     (case getShard c k of
        Inl e \<Rightarrow> Inl e
      | Inr i \<Rightarrow> Inr (c\<lparr>shards := (shards c)[i := shardPut (shards c ! i) k v],
                       memUsage := memUsage c + putDelta (shards c ! i) k v\<rparr>))"
  by (simp add: Put_def shardPut_def putDelta_def entrySize_def Let_def split: option.splits sum.splits)

lemma items_shardPut [simp]: "items (shardPut s k v) = (items s)(k \<mapsto> v)"
  by (simp add: shardPut_def Let_def split: option.splits)

lemma sint_length_diff:
  assumes "length v1 < 2 ^ 63" "length v2 < 2 ^ 63"
  shows "sint (word_of_nat (length v2) - word_of_nat (length v1) :: 64 word) = int (length v2) - int (length v1)"
proof -
  have "(word_of_nat (length v2) - word_of_nat (length v1) :: 64 word) = word_of_int (int (length v2) - int (length v1))"
    by simp
  moreover have "- (2 ^ 63) \<le> int (length v2) - int (length v1)" "int (length v2) - int (length v1) < 2 ^ 63"
    using assms by auto
  ultimately show ?thesis
    by (simp only: sint_sbintrunc') (simp add: signed_take_bit_int_eq_self)
qed

section \<open>The fresh cache\<close>

lemma cache_wf_newCacheOf: "0 < n \<Longrightarrow> n < 2 ^ 32 \<Longrightarrow> cache_wf (newCacheOf n)"
  by (simp add: cache_wf_def newCacheOf_def)

lemma cache_wf_NewCache: "cache_wf NewCache"
  by (simp add: NewCache_def DefaultShards_def cache_wf_newCacheOf)

lemma getShard_NewCache_a: "getShard NewCache ''a'' = Inr 382"
  by (simp add: getShard_def NewCache_def newCacheOf_def DefaultShards_def fnv32_def)

lemma shards_NewCache: "shards NewCache = replicate 1024 newShard"
  by (simp add: NewCache_def newCacheOf_def DefaultShards_def)

lemma memUsage_NewCache: "memUsage NewCache = 0"
  by (simp add: NewCache_def newCacheOf_def DefaultShards_def)

section \<open>Size accounting of Put\<close>

text \<open>
  Claim C3. For every key \<open>k\<close> and values \<open>v1\<close>, \<open>v2\<close>: \<open>Put k v1\<close> followed by \<open>Put k v2\<close>
  changes the counter, across the second call, by exactly \<open>len v2 - len v1\<close>, whatever
  the length of the key. The two calls return, on every well-formed cache. The delta is
  added to the \<open>int64\<close> counter with wrap-around; read as a signed difference it is the
  integer \<open>len v2 - len v1\<close> (Go's lengths are below \<open>2 ^ 63\<close>).
\<close>

theorem Put_twice_counter_delta:
  assumes "cache_wf c"
  shows "\<exists>c1 c2. Put c k v1 = Inr c1 \<and> Put c1 k v2 = Inr c2 \<and>
           memUsage c2 = memUsage c1 + (word_of_nat (length v2) - word_of_nat (length v1)) \<and>
           (length v1 < 2 ^ 63 \<and> length v2 < 2 ^ 63 \<longrightarrow>
              sint (memUsage c2 - memUsage c1) = int (length v2) - int (length v1))"
proof -
  obtain i where i: "getShard c k = Inr i"
    using getShard_wf [OF assms] by blast
  have il: "i < length (shards c)"
    using i by (rule getShard_less)
  define c1 where "c1 = c\<lparr>shards := (shards c)[i := shardPut (shards c ! i) k v1],
                       memUsage := memUsage c + putDelta (shards c ! i) k v1\<rparr>"
  have p1: "Put c k v1 = Inr c1"
    by (simp add: Put_alt i c1_def)
  have i1: "getShard c1 k = Inr i"
    by (simp add: c1_def i)
  have s1: "items (shards c1 ! i) k = Some v1"
    using il by (simp add: c1_def)
  define c2 where "c2 = c1\<lparr>shards := (shards c1)[i := shardPut (shards c1 ! i) k v2],
                       memUsage := memUsage c1 + putDelta (shards c1 ! i) k v2\<rparr>"
  have p2: "Put c1 k v2 = Inr c2"
    by (simp add: Put_alt i1 c2_def)
  have d: "memUsage c2 = memUsage c1 + (word_of_nat (length v2) - word_of_nat (length v1))"
    by (simp add: c2_def putDelta_def s1)
  have "length v1 < 2 ^ 63 \<and> length v2 < 2 ^ 63 \<longrightarrow>
          sint (memUsage c2 - memUsage c1) = int (length v2) - int (length v1)"
    using sint_length_diff [of v1 v2] by (simp add: d)
  with p1 p2 d show ?thesis by blast
qed

theorem Put_twice_counter_delta_witness:
  "cache_wf NewCache \<and>
   (\<exists>c1 c2. Put NewCache ''a'' ''1'' = Inr c1 \<and> Put c1 ''a'' ''22'' = Inr c2 \<and>
      memUsage c2 = memUsage c1 + 1 \<and> sint (memUsage c2 - memUsage c1) = 1)"
  using Put_twice_counter_delta [OF cache_wf_NewCache, of "''a''" "''1''" "''22''"]
  by (simp add: cache_wf_NewCache)

section \<open>The scenario of two Puts on one key\<close>

text \<open>
  Claim C4, as the code has it. On the fresh cache, \<open>Put "a" "1"\<close> then \<open>Put "a" "22"\<close>
  leaves \<open>Get "a"\<close> returning \<open>("22", true)\<close>; the counter starts at 0, is 2 after the
  first call (the key's byte and the value's byte) and 3 after the second (one more
  byte of value): the net change of the two calls is +3.
\<close>

theorem Put_a_twice_scenario:
  "lookupAfter NewCache [CallPut ''a'' ''1'', CallPut ''a'' ''22''] ''a'' = Inr (''22'', True) \<and>
   memUsage NewCache = 0 \<and>
   memUsageAfter NewCache [CallPut ''a'' ''1''] = Inr 2 \<and>
   memUsageAfter NewCache [CallPut ''a'' ''1'', CallPut ''a'' ''22''] = Inr 3"
  by (simp add: lookupAfter_def memUsageAfter_def Put_alt Get_alt getShard_NewCache_a
      shards_NewCache memUsage_NewCache putDelta_def entrySize_def shardLookup_def newShard_def)

text \<open>
  Claim C4 as stated has the counter one above its start after the first call and a net
  change of +1 after the two calls; neither is what the code computes.
\<close>

theorem Put_a_twice_counterexample:
  "memUsageAfter NewCache [CallPut ''a'' ''1''] \<noteq> Inr (memUsage NewCache + 1) \<and>
   memUsageAfter NewCache [CallPut ''a'' ''1'', CallPut ''a'' ''22''] \<noteq> Inr (memUsage NewCache + 1)"
  by (simp add: lookupAfter_def memUsageAfter_def Put_alt Get_alt getShard_NewCache_a
      shards_NewCache memUsage_NewCache putDelta_def entrySize_def shardLookup_def newShard_def)

lemma listFront_None [simp]: "listFront l = None \<longleftrightarrow> l = []"
  by (simp add: listFront_def split: list.splits)

lemma listFront_Some: "listFront l = Some x \<Longrightarrow> x \<in> set l"
  by (auto simp: listFront_def split: list.splits)

lemma listFront_Cons [simp]: "listFront (x # xs) = Some x"
  by (simp add: listFront_def)

lemma elemNext_in: "elemNext e l = Some n \<Longrightarrow> n \<in> set l"
  by (induction l) (auto split: if_splits dest: listFront_Some)

lemma elemNext_not_self: "distinct l \<Longrightarrow> elemNext h l \<noteq> Some h"
  by (induction l) (auto dest: listFront_Some elemNext_in)

lemma elemNext_append: "distinct (xs @ h # ys) \<Longrightarrow> elemNext h (xs @ h # ys) = listFront ys"
  by (induction xs) auto

lemma nextOrFirst_in: "l \<noteq> [] \<Longrightarrow> \<exists>n. nextOrFirst e l = Some n \<and> n \<in> set l"
  by (cases "elemNext e l") (auto simp: nextOrFirst_def listFront_def dest: elemNext_in split: list.splits)

lemma nextOrFirst_append:
  "distinct (xs @ h # ys) \<Longrightarrow> nextOrFirst h (xs @ h # ys) = listFront (ys @ xs @ [h])"
  by (cases ys; cases xs) (simp_all add: nextOrFirst_def elemNext_append)

lemma nextOrFirst_other:
  assumes "distinct l" "h \<in> set l" "remove1 h l \<noteq> []"
  shows "\<exists>n. nextOrFirst h l = Some n \<and> n \<in> set l \<and> n \<noteq> h"
proof -
  obtain xs ys where l: "l = xs @ h # ys"
    using assms(2) by (auto dest: split_list)
  have ne: "ys @ xs \<noteq> []"
    using assms(1,3) by (auto simp: l remove1_append)
  have "nextOrFirst h l = listFront (ys @ xs @ [h])"
    using assms(1) unfolding l by (rule nextOrFirst_append)
  then show ?thesis
    using ne assms(1) by (cases ys; cases xs) (auto simp: l)
qed

lemma evictLoop_step:
  "evictLoop count maxAttempts evicted attempts s =
     (if evicted < count \<and> attempts < maxAttempts then
        (case clockHand s of
           None \<Rightarrow> Inl NilDereference
         | Some h \<Rightarrow>
             if referenced (elemValue s h) then
               evictLoop count maxAttempts evicted (attempts + 1) (sweepClear s h)
             else if itemsList (sweepRemove s h) = [] then
               Inr (evicted + 1, attempts + 1, (sweepRemove s h)\<lparr>clockHand := None\<rparr>)
             else evictLoop count maxAttempts (evicted + 1) (attempts + 1) (sweepRemove s h))
      else Inr (evicted, attempts, s))"
  by (subst evictLoop.simps) (simp add: sweepClear_def sweepRemove_def Let_def split: option.splits)

lemma evictLoop_rule:
  assumes init: "I evicted attempts s"
    and hand: "\<And>ev att s. I ev att s \<Longrightarrow> ev < count \<Longrightarrow> att < maxAttempts \<Longrightarrow> clockHand s \<noteq> None"
    and clear: "\<And>ev att s h. I ev att s \<Longrightarrow> ev < count \<Longrightarrow> att < maxAttempts \<Longrightarrow>
        clockHand s = Some h \<Longrightarrow> referenced (elemValue s h) \<Longrightarrow> I ev (att + 1) (sweepClear s h)"
    and remove: "\<And>ev att s h. I ev att s \<Longrightarrow> ev < count \<Longrightarrow> att < maxAttempts \<Longrightarrow>
        clockHand s = Some h \<Longrightarrow> \<not> referenced (elemValue s h) \<Longrightarrow>
        itemsList (sweepRemove s h) \<noteq> [] \<Longrightarrow> I (ev + 1) (att + 1) (sweepRemove s h)"
    and break: "\<And>ev att s h. I ev att s \<Longrightarrow> ev < count \<Longrightarrow> att < maxAttempts \<Longrightarrow>
        clockHand s = Some h \<Longrightarrow> \<not> referenced (elemValue s h) \<Longrightarrow>
        itemsList (sweepRemove s h) = [] \<Longrightarrow> Q (ev + 1) (att + 1) ((sweepRemove s h)\<lparr>clockHand := None\<rparr>)"
    and exit: "\<And>ev att s. I ev att s \<Longrightarrow> \<not> (ev < count \<and> att < maxAttempts) \<Longrightarrow> Q ev att s"
  shows "\<exists>ev' att' s'. evictLoop count maxAttempts evicted attempts s = Inr (ev', att', s') \<and> Q ev' att' s'"
  using init
proof (induction "nat (maxAttempts - attempts)" arbitrary: evicted attempts s rule: less_induct)
  case less
  show ?case
  proof (cases "evicted < count \<and> attempts < maxAttempts")
    case False
    then show ?thesis
      using exit [OF less.prems] by (subst evictLoop_step) auto
  next
    case True
    then obtain h where h: "clockHand s = Some h"
      using hand [OF less.prems] by auto
    have m: "nat (maxAttempts - (attempts + 1)) < nat (maxAttempts - attempts)"
      using True by simp
    show ?thesis
    proof (cases "referenced (elemValue s h)")
      case r: True
      have "I evicted (attempts + 1) (sweepClear s h)"
        using clear [OF less.prems _ _ h r] True by simp
      from less.hyps [OF m this] show ?thesis
        using True h r by (subst evictLoop_step) simp
    next
      case r: False
      show ?thesis
      proof (cases "itemsList (sweepRemove s h) = []")
        case e: True
        have "Q (evicted + 1) (attempts + 1) ((sweepRemove s h)\<lparr>clockHand := None\<rparr>)"
          using break [OF less.prems _ _ h r e] True by simp
        then show ?thesis
          using True h r e by (subst evictLoop_step) simp
      next
        case e: False
        have "I (evicted + 1) (attempts + 1) (sweepRemove s h)"
          using remove [OF less.prems _ _ h r e] True by simp
        from less.hyps [OF m this] show ?thesis
          using True h r e by (subst evictLoop_step) simp
      qed
    qed
  qed
qed

lemma shard_inv_newShard: "shard_inv newShard"
  by (simp add: shard_inv_def newShard_def queueKeys_def)

lemma shard_inv_key_inj:
  assumes "shard_inv s" "e1 \<in> set (itemsList s)" "e2 \<in> set (itemsList s)"
    "key (elemValue s e1) = key (elemValue s e2)"
  shows "e1 = e2"
proof -
  have "elements s (key (elemValue s e1)) = Some e1" "elements s (key (elemValue s e2)) = Some e2"
    using assms(1-3) by (auto simp: shard_inv_def)
  with assms(4) have "Some e1 = Some e2"
    by metis
  then show ?thesis by simp
qed

lemma shard_inv_elements:
  assumes "shard_inv s" "elements s k = Some e"
  shows "e \<in> set (itemsList s) \<and> key (elemValue s e) = k"
proof -
  have "k \<in> set (queueKeys s)"
    using assms by (auto simp: shard_inv_def)
  then obtain e' where e': "e' \<in> set (itemsList s)" "key (elemValue s e') = k"
    by (auto simp: queueKeys_def)
  then have "elements s k = Some e'"
    using assms(1) by (auto simp: shard_inv_def)
  then show ?thesis using e' assms(2) by simp
qed

lemma shard_inv_items_elements:
  assumes "shard_inv s"
  shows "items s k \<noteq> None \<longleftrightarrow> elements s k \<noteq> None"
proof -
  have "dom (items s) = dom (elements s)"
    using assms by (simp add: shard_inv_def)
  then have "k \<in> dom (items s) \<longleftrightarrow> k \<in> dom (elements s)"
    by simp
  then show ?thesis
    by (simp only: domIff)
qed

lemma shard_inv_same_keys:
  assumes "shard_inv s"
    and "itemsList s' = itemsList s" "elements s' = elements s" "items s' = items s"
    and "clockHand s' = clockHand s" "nextElem s' = nextElem s"
    and "\<And>e. key (elemValue s' e) = key (elemValue s e)"
  shows "shard_inv s'"
  using assms by (simp add: shard_inv_def queueKeys_def split: option.splits)

lemma shard_inv_shardGet: "shard_inv s \<Longrightarrow> shard_inv (shardGet s k)"
  by (erule shard_inv_same_keys) (simp_all add: shardGet_def split: option.splits)

lemma shard_invI:
  assumes "distinct (itemsList s)"
    and "\<And>e. e \<in> set (itemsList s) \<Longrightarrow> e < nextElem s"
    and "\<And>e. e \<in> set (itemsList s) \<Longrightarrow> elements s (key (elemValue s e)) = Some e"
    and "dom (elements s) = (\<lambda>e. key (elemValue s e)) ` set (itemsList s)"
    and "dom (items s) = (\<lambda>e. key (elemValue s e)) ` set (itemsList s)"
    and "clockHand s = None \<Longrightarrow> itemsList s = []"
    and "\<And>h. clockHand s = Some h \<Longrightarrow> h \<in> set (itemsList s)"
  shows "shard_inv s"
  using assms by (simp add: shard_inv_def queueKeys_def split: option.splits)

lemma shard_invD:
  assumes "shard_inv s"
  shows "distinct (itemsList s)"
    and "\<And>e. e \<in> set (itemsList s) \<Longrightarrow> e < nextElem s"
    and "\<And>e. e \<in> set (itemsList s) \<Longrightarrow> elements s (key (elemValue s e)) = Some e"
    and "dom (elements s) = (\<lambda>e. key (elemValue s e)) ` set (itemsList s)"
    and "dom (items s) = (\<lambda>e. key (elemValue s e)) ` set (itemsList s)"
    and "clockHand s = None \<Longrightarrow> itemsList s = []"
    and "\<And>h. clockHand s = Some h \<Longrightarrow> h \<in> set (itemsList s)"
  using assms by (simp_all add: shard_inv_def queueKeys_def split: option.splits)

lemma shardPut_new:
  "items s k = None \<Longrightarrow>
   shardPut s k v =
     s\<lparr>items := (items s)(k \<mapsto> v),
       itemsList := itemsList s @ [nextElem s],
       elemValue := (elemValue s)(nextElem s := \<lparr>key = k, referenced = True, size' = entrySize k v\<rparr>),
       nextElem := Suc (nextElem s),
       elements := (elements s)(k \<mapsto> nextElem s),
       clockHand := (if clockHand s = None then Some (nextElem s) else clockHand s)\<rparr>"
  by (simp add: shardPut_def Let_def)

lemma shard_inv_shardPut:
  assumes inv: "shard_inv s"
  shows "shard_inv (shardPut s k v)"
proof (cases "items s k")
  case (Some old)
  then have k: "k \<in> dom (items s)" by auto
  have "shard_inv (s\<lparr>items := (items s)(k \<mapsto> v)\<rparr>)"
    using assms k by (auto simp: shard_inv_def queueKeys_def split: option.splits)
  then show ?thesis
    by (rule shard_inv_same_keys) (simp_all add: shardPut_def Some split: option.splits)
next
  case None
  note D = shard_invD [OF inv]
  let ?f = "\<lambda>e. key (elemValue s e)"
  define s' where "s' = shardPut s k v"
  have k: "k \<notin> ?f ` set (itemsList s)"
    using None D(5) by auto
  have fresh: "nextElem s \<notin> set (itemsList s)"
    using D(2) by auto
  have l': "itemsList s' = itemsList s @ [nextElem s]" and n': "nextElem s' = Suc (nextElem s)"
    and e': "elements s' = (elements s)(k \<mapsto> nextElem s)" and i': "items s' = (items s)(k \<mapsto> v)"
    and h': "clockHand s' = (if clockHand s = None then Some (nextElem s) else clockHand s)"
    by (simp_all add: s'_def shardPut_new [OF None])
  have v': "\<forall>e \<in> set (itemsList s). key (elemValue s' e) = ?f e" "key (elemValue s' (nextElem s)) = k"
    using fresh by (auto simp: s'_def shardPut_new [OF None])
  have img: "(\<lambda>e. key (elemValue s' e)) ` set (itemsList s) = ?f ` set (itemsList s)"
    using v'(1) by (intro image_cong) auto
  have "shard_inv s'"
  proof (rule shard_invI)
    show "distinct (itemsList s')"
      using D(1) fresh by (simp add: l')
    show "e < nextElem s'" if "e \<in> set (itemsList s')" for e
      using that D(2) [of e] by (auto simp: l' n')
    show "elements s' (key (elemValue s' e)) = Some e" if "e \<in> set (itemsList s')" for e
    proof (cases "e = nextElem s")
      case True
      then show ?thesis by (simp add: v'(2) e')
    next
      case False
      then have e: "e \<in> set (itemsList s)" using that by (simp add: l')
      then have "?f e \<noteq> k" using k by auto
      then show ?thesis using e v'(1) D(3) [OF e] by (simp add: e')
    qed
    show "dom (elements s') = (\<lambda>e. key (elemValue s' e)) ` set (itemsList s')"
      by (simp add: e' l' img v'(2) D(4))
    show "dom (items s') = (\<lambda>e. key (elemValue s' e)) ` set (itemsList s')"
      by (simp add: i' l' img v'(2) D(5))
    show "itemsList s' = []" if "clockHand s' = None"
      using that by (simp add: h' split: if_splits)
    show "h \<in> set (itemsList s')" if "clockHand s' = Some h" for h
      using that D(7) [of h] by (auto simp: h' l' split: if_splits)
  qed
  then show ?thesis by (simp add: s'_def)
qed

lemma shard_inv_sweepClear:
  assumes "shard_inv s" "clockHand s = Some h"
  shows "shard_inv (sweepClear s h)"
proof -
  have ne: "itemsList s \<noteq> []"
    using assms by (auto simp: shard_inv_def)
  obtain n where n: "nextOrFirst h (itemsList s) = Some n" "n \<in> set (itemsList s)"
    using nextOrFirst_in [OF ne] by blast
  have "shard_inv (s\<lparr>clockHand := Some n\<rparr>)"
    using assms n by (simp add: shard_inv_def queueKeys_def split: option.splits)
  then show ?thesis
    by (rule shard_inv_same_keys) (simp_all add: sweepClear_def n)
qed

lemma shard_inv_sweepRemove:
  assumes inv: "shard_inv s" and h: "clockHand s = Some h"
  shows "shard_inv (if itemsList (sweepRemove s h) = []
                    then (sweepRemove s h)\<lparr>clockHand := None\<rparr> else sweepRemove s h)"
proof -
  note D = shard_invD [OF inv]
  let ?f = "\<lambda>e. key (elemValue s e)"
  define s' where "s' = (if itemsList (sweepRemove s h) = []
                    then (sweepRemove s h)\<lparr>clockHand := None\<rparr> else sweepRemove s h)"
  have hin: "h \<in> set (itemsList s)"
    using D(7) h by simp
  have others: "\<forall>e \<in> set (itemsList s). e \<noteq> h \<longrightarrow> ?f e \<noteq> ?f h"
    using shard_inv_key_inj [OF inv _ hin] by blast
  have keys: "?f ` set (itemsList s) - {?f h} = ?f ` (set (itemsList s) - {h})"
    using others hin by auto
  have l': "itemsList s' = remove1 h (itemsList s)" and n': "nextElem s' = nextElem s"
    and e': "elements s' = (elements s)(?f h := None)" and i': "items s' = (items s)(?f h := None)"
    and v': "elemValue s' = elemValue s"
    and h': "clockHand s' = (if remove1 h (itemsList s) = [] then None else nextOrFirst h (itemsList s))"
    by (simp_all add: s'_def sweepRemove_def)
  have rest: "set (itemsList s') = set (itemsList s) - {h}"
    using D(1) by (simp add: l')
  have "shard_inv s'"
  proof (rule shard_invI)
    show "distinct (itemsList s')"
      using D(1) by (simp add: l')
    show "e < nextElem s'" if "e \<in> set (itemsList s')" for e
      using that D(2) [of e] by (simp add: rest n')
    show "elements s' (key (elemValue s' e)) = Some e" if "e \<in> set (itemsList s')" for e
      using that D(3) [of e] others by (simp add: rest e' v')
    show "dom (elements s') = (\<lambda>e. key (elemValue s' e)) ` set (itemsList s')"
      by (simp add: e' v' rest D(4) keys)
    show "dom (items s') = (\<lambda>e. key (elemValue s' e)) ` set (itemsList s')"
      by (simp add: i' v' rest D(5) keys)
    show "itemsList s' = []" if "clockHand s' = None"
    proof (rule ccontr)
      assume "itemsList s' \<noteq> []"
      then have ne: "remove1 h (itemsList s) \<noteq> []" by (simp add: l')
      from nextOrFirst_other [OF D(1) hin ne] that ne show False
        by (auto simp: h')
    qed
    show "n \<in> set (itemsList s')" if "clockHand s' = Some n" for n
    proof -
      have ne: "remove1 h (itemsList s) \<noteq> []" and n: "nextOrFirst h (itemsList s) = Some n"
        using that by (auto simp: h' split: if_splits)
      from nextOrFirst_other [OF D(1) hin ne] n show ?thesis
        by (auto simp: rest)
    qed
  qed
  then show ?thesis by (simp add: s'_def)
qed

lemma sweepClear_simps [simp]:
  "itemsList (sweepClear s h) = itemsList s" "items (sweepClear s h) = items s"
  "elements (sweepClear s h) = elements s" "nextElem (sweepClear s h) = nextElem s"
  by (simp_all add: sweepClear_def)

lemma sweepRemove_simps [simp]:
  "itemsList (sweepRemove s h) = remove1 h (itemsList s)"
  "items (sweepRemove s h) = (items s)(key (elemValue s h) := None)"
  "elements (sweepRemove s h) = (elements s)(key (elemValue s h) := None)"
  "elemValue (sweepRemove s h) = elemValue s" "nextElem (sweepRemove s h) = nextElem s"
  by (simp_all add: sweepRemove_def)

lemma length_remove1_Suc: "h \<in> set l \<Longrightarrow> Suc (length (remove1 h l)) = length l"
  by (induction l) auto

lemma length_remove1_int:
  "h \<in> set l \<Longrightarrow> int (length (remove1 h l)) = int (length l) - 1"
  using length_remove1_Suc [of h l] by linarith

lemma shard_inv_hand: "shard_inv s \<Longrightarrow> clockHand s = Some h \<Longrightarrow> h \<in> set (itemsList s)"
  by (simp add: shard_inv_def)

lemma shard_inv_hand_None: "shard_inv s \<Longrightarrow> clockHand s = None \<longleftrightarrow> itemsList s = []"
  by (auto simp: shard_inv_def split: option.splits)

lemma evictLoop_sweep:
  assumes inv: "shard_inv s" and ne: "itemsList s \<noteq> []"
  shows "\<exists>ev att s'. evictLoop count (int (length (itemsList s)) * 2) 0 0 s = Inr (ev, att, s') \<and>
           sweepResult s count ev att s'"
proof -
  define I where "I = (\<lambda>ev att st. shard_inv st \<and> itemsList st \<noteq> [] \<and> 0 \<le> ev \<and> ev \<le> max 0 count \<and>
      (0::int) \<le> att \<and> att \<le> int (length (itemsList s)) * 2 \<and>
      int (length (itemsList st)) + ev = int (length (itemsList s)) \<and>
      (\<forall>k. items s k = None \<longrightarrow> items st k = None))"
  show ?thesis
  proof (rule evictLoop_rule [where I = I])
    show "I 0 0 s"
      using inv ne by (simp add: I_def)
  next
    fix ev att st
    assume "I ev att st"
    then show "clockHand st \<noteq> None"
      by (simp add: I_def shard_inv_hand_None)
  next
    fix ev att st h
    assume "I ev att st" "att < int (length (itemsList s)) * 2" "clockHand st = Some h"
    then show "I ev (att + 1) (sweepClear st h)"
      by (simp add: I_def shard_inv_sweepClear)
  next
    fix ev att st h
    assume a: "I ev att st" "ev < count" "att < int (length (itemsList s)) * 2" "clockHand st = Some h"
      "itemsList (sweepRemove st h) \<noteq> []"
    then have h: "h \<in> set (itemsList st)"
      by (simp add: I_def shard_inv_hand)
    have "shard_inv (sweepRemove st h)"
      using shard_inv_sweepRemove [of st h] a by (simp add: I_def)
    then show "I (ev + 1) (att + 1) (sweepRemove st h)"
      using a length_remove1_int [OF h] by (auto simp: I_def)
  next
    fix ev att st h
    assume a: "I ev att st" "ev < count" "att < int (length (itemsList s)) * 2" "clockHand st = Some h"
      "itemsList (sweepRemove st h) = []"
    then have h: "h \<in> set (itemsList st)"
      by (simp add: I_def shard_inv_hand)
    have "shard_inv ((sweepRemove st h)\<lparr>clockHand := None\<rparr>)"
      using shard_inv_sweepRemove [of st h] a by (simp add: I_def)
    then show "sweepResult s count (ev + 1) (att + 1) ((sweepRemove st h)\<lparr>clockHand := None\<rparr>)"
      using a length_remove1_int [OF h] by (auto simp: I_def sweepResult_def)
  next
    fix ev att st
    assume "I ev att st" "\<not> (ev < count \<and> att < int (length (itemsList s)) * 2)"
    then show "sweepResult s count ev att st"
      by (auto simp: I_def sweepResult_def)
  qed
qed

lemma evict_sweep:
  assumes inv: "shard_inv s"
  shows "\<exists>n s'. evict s count = Inr (n, s') \<and> shard_inv s' \<and> 0 \<le> n \<and> n \<le> max 0 count \<and>
           int (length (itemsList s')) + n = int (length (itemsList s)) \<and>
           (\<forall>k. items s k = None \<longrightarrow> items s' k = None)"
proof (cases "itemsList s = []")
  case True
  then show ?thesis
    using inv by (simp add: evict_def)
next
  case False
  then have h: "clockHand s \<noteq> None"
    using inv by (simp add: shard_inv_hand_None)
  from evictLoop_sweep [OF inv False, of count] obtain ev att s'
    where "evictLoop count (int (length (itemsList s)) * 2) 0 0 s = Inr (ev, att, s')"
      "sweepResult s count ev att s'"
    by blast
  then show ?thesis
    using False h by (auto simp: evict_def sweepResult_def)
qed

lemma evict_empty: "itemsList s = [] \<Longrightarrow> evict s count = Inr (0, s)"
  by (simp add: evict_def)

lemma sweptFrom_refl: "shard_inv s \<Longrightarrow> sweptFrom s s"
  by (simp add: sweptFrom_def)

lemma list_all2_sweptFrom_refl: "\<forall>s \<in> set ss. shard_inv s \<Longrightarrow> list_all2 sweptFrom ss ss"
  by (simp add: list_all2_same sweptFrom_refl)

lemma evictShardsSpec_inv:
  assumes "\<forall>s \<in> set ss. shard_inv s"
  shows "\<exists>t ss'. evictShardsSpec tc p r ss = Inr (t, ss') \<and> list_all2 sweptFrom ss ss' \<and> r \<le> t \<and>
           int (sum_list (map (\<lambda>s. length (itemsList s)) ss')) + (t - r) =
             int (sum_list (map (\<lambda>s. length (itemsList s)) ss)) \<and>
           (1 \<le> p \<and> (p = 1 \<or> r + int (length ss) * p \<le> tc) \<longrightarrow> t \<le> max r tc)"
  using assms
proof (induction ss arbitrary: r)
  case Nil
  then show ?case by simp
next
  case (Cons s ss)
  show ?case
  proof (cases "tc \<le> r")
    case True
    then show ?thesis
      using Cons.prems by (simp add: list_all2_sweptFrom_refl sweptFrom_refl)
  next
    case False
    from Cons.prems have inv: "shard_inv s" and invs: "\<forall>s \<in> set ss. shard_inv s"
      by simp_all
    from evict_sweep [OF inv, of p] obtain n s'
      where ev: "evict s p = Inr (n, s')" and s': "shard_inv s'" "0 \<le> n" "n \<le> max 0 p"
        "int (length (itemsList s')) + n = int (length (itemsList s))"
        "\<forall>k. items s k = None \<longrightarrow> items s' k = None"
      by blast
    from Cons.IH [OF invs, of "r + n"] obtain t ss'
      where rec: "evictShardsSpec tc p (r + n) ss = Inr (t, ss')" and ss': "list_all2 sweptFrom ss ss'"
        "r + n \<le> t"
        "int (sum_list (map (\<lambda>s. length (itemsList s)) ss')) + (t - (r + n)) =
             int (sum_list (map (\<lambda>s. length (itemsList s)) ss))"
        "1 \<le> p \<and> (p = 1 \<or> r + n + int (length ss) * p \<le> tc) \<longrightarrow> t \<le> max (r + n) tc"
      by blast
    have eq: "evictShardsSpec tc p r (s # ss) = Inr (t, s' # ss')"
      using False ev rec by simp
    have sw: "sweptFrom s s'"
      using s' by (simp add: sweptFrom_def)
    have bound: "t \<le> max r tc" if p: "1 \<le> p" "p = 1 \<or> r + int (length (s # ss)) * p \<le> tc"
    proof -
      have n: "n \<le> p" using s'(3) p(1) by simp
      have "p = 1 \<or> r + n + int (length ss) * p \<le> tc"
        using p(2) n by (auto simp: algebra_simps)
      then have "t \<le> max (r + n) tc"
        using ss'(4) p(1) by simp
      moreover have "0 \<le> int (length ss) * p"
        using p(1) by simp
      then have "r + n \<le> tc"
        using p(2) n False by (auto simp: algebra_simps)
      ultimately show ?thesis by simp
    qed
    show ?thesis
      using eq sw ss'(1,2,3) s'(2,4) bound by (simp add: algebra_simps)
  qed
qed

lemma evictBatchLoop_spec:
  assumes "shardCount c = int (length (shards c))" "0 \<le> i" "i \<le> shardCount c"
  shows "evictBatchLoop count p i ev c =
           (case evictShardsSpec count p ev (drop (nat i) (shards c)) of
              Inl e \<Rightarrow> Inl e
            | Inr (t, ss) \<Rightarrow> Inr (t, c\<lparr>shards := take (nat i) (shards c) @ ss\<rparr>))"
  using assms
proof (induction "nat (shardCount c - i)" arbitrary: i ev c rule: less_induct)
  case less
  let ?l = "shards c"
  show ?case
  proof (cases "i < shardCount c")
    case False
    then have "drop (nat i) ?l = []" "take (nat i) ?l = ?l"
      using less.prems by simp_all
    then show ?thesis
      using False by (subst evictBatchLoop.simps) simp
  next
    case True
    then have il: "nat i < length ?l"
      using less.prems by simp
    have dr: "drop (nat i) ?l = ?l ! nat i # drop (Suc (nat i)) ?l"
      using il by (simp add: Cons_nth_drop_Suc)
    show ?thesis
    proof (cases "ev < count")
      case False
      then show ?thesis
        using True id_take_nth_drop [OF il, symmetric]
        by (subst evictBatchLoop.simps) (simp add: dr)
    next
      case c: True
      show ?thesis
      proof (cases "evict (?l ! nat i) p")
        case (Inl e)
        then show ?thesis
          using True c il less.prems by (subst evictBatchLoop.simps) (simp add: dr)
      next
        case (Inr r)
        obtain n s' where r: "r = (n, s')" by (cases r)
        let ?c' = "c\<lparr>shards := ?l[nat i := s']\<rparr>"
        have m: "nat (shardCount ?c' - (i + 1)) < nat (shardCount c - i)"
          using True by simp
        have ih: "evictBatchLoop count p (i + 1) (ev + n) ?c' =
           (case evictShardsSpec count p (ev + n) (drop (nat (i + 1)) (shards ?c')) of
              Inl e \<Rightarrow> Inl e
            | Inr (t, ss) \<Rightarrow> Inr (t, ?c'\<lparr>shards := take (nat (i + 1)) (shards ?c') @ ss\<rparr>))"
          using less.prems True by (intro less.hyps [OF m]) simp_all
        have i1: "nat (i + 1) = Suc (nat i)"
          using less.prems(2) by simp
        have tk: "take (Suc (nat i)) (?l[nat i := s']) = take (nat i) ?l @ [s']"
          using il by (simp add: take_Suc_conv_app_nth)
        have "evictBatchLoop count p i ev c = evictBatchLoop count p (i + 1) (ev + n) ?c'"
          using True c il less.prems Inr r by (subst evictBatchLoop.simps) simp
        also have "\<dots> = (case evictShardsSpec count p ev (drop (nat i) ?l) of
              Inl e \<Rightarrow> Inl e
            | Inr (t, ss) \<Rightarrow> Inr (t, c\<lparr>shards := take (nat i) ?l @ ss\<rparr>))"
          using c Inr r by (simp add: ih i1 tk dr split: sum.splits)
        finally show ?thesis .
      qed
    qed
  qed
qed

lemma sdiv_nonneg: "0 \<le> a \<Longrightarrow> 0 < b \<Longrightarrow> a sdiv b = a div (b::int)"
  by (simp add: signed_divide_int_def sgn_if)

lemma evictBatch_alt:
  assumes "cache_wf c"
  shows "evictBatch c count =
           (case evictShardsSpec count (max 1 (count sdiv shardCount c)) 0 (shards c) of
              Inl e \<Rightarrow> Inl e
            | Inr (t, ss) \<Rightarrow> Inr (c\<lparr>shards := ss\<rparr>))"
proof -
  have wf: "shardCount c = int (length (shards c))" "0 < shardCount c"
    using assms by (auto simp: cache_wf_def)
  have p: "(if count sdiv shardCount c < 1 then 1 else count sdiv shardCount c) = max 1 (count sdiv shardCount c)"
    by (simp add: max_def)
  show ?thesis
    using wf(2) evictBatchLoop_spec [OF wf(1), of 0 count "max 1 (count sdiv shardCount c)" 0]
    by (simp add: evictBatch_def Let_def p split: sum.splits)
qed

lemma cache_wf_shards_update [simp]:
  "length l = length (shards c) \<Longrightarrow> cache_wf (c\<lparr>shards := l\<rparr>) = cache_wf c"
  by (simp add: cache_wf_def)

lemma cache_wf_memUsage_update [simp]: "cache_wf (c\<lparr>memUsage := m\<rparr>) = cache_wf c"
  by (simp add: cache_wf_def)

lemma cache_inv_memUsage_update [simp]: "cache_inv (c\<lparr>memUsage := m\<rparr>) = cache_inv c"
  by (simp add: cache_inv_def)

lemma cache_inv_shard_update:
  assumes "cache_inv c" "shard_inv s'"
  shows "cache_inv (c\<lparr>shards := (shards c)[i := s']\<rparr>)"
  using assms set_update_subset_insert [of "shards c" i s']
  by (auto simp: cache_inv_def)

lemma cache_inv_nth: "cache_inv c \<Longrightarrow> i < length (shards c) \<Longrightarrow> shard_inv (shards c ! i)"
  by (simp add: cache_inv_def)

lemma cache_inv_getShard: "cache_inv c \<Longrightarrow> \<exists>i. getShard c k = Inr i \<and> i < length (shards c)"
  using getShard_wf [of c k] getShard_less [of c k] by (auto simp: cache_inv_def)

lemma list_all2_sweptFrom_inv:
  "list_all2 sweptFrom ss ss' \<Longrightarrow> \<forall>s \<in> set ss'. shard_inv s"
  by (induction rule: list_all2_induct) (simp_all add: sweptFrom_def)

lemma evictBatch_inv:
  assumes "cache_inv c"
  shows "\<exists>ss. evictBatch c n = Inr (c\<lparr>shards := ss\<rparr>) \<and> list_all2 sweptFrom (shards c) ss \<and>
           cache_inv (c\<lparr>shards := ss\<rparr>)"
proof -
  have wf: "cache_wf c" and invs: "\<forall>s \<in> set (shards c). shard_inv s"
    using assms by (simp_all add: cache_inv_def)
  from evictShardsSpec_inv [OF invs, of n "max 1 (n sdiv shardCount c)" 0] obtain t ss
    where e: "evictShardsSpec n (max 1 (n sdiv shardCount c)) 0 (shards c) = Inr (t, ss)"
      and ss: "list_all2 sweptFrom (shards c) ss"
    by blast
  have "length ss = length (shards c)"
    using ss by (simp add: list_all2_lengthD)
  then have "cache_inv (c\<lparr>shards := ss\<rparr>)"
    using wf list_all2_sweptFrom_inv [OF ss] by (simp add: cache_inv_def)
  moreover have "evictBatch c n = Inr (c\<lparr>shards := ss\<rparr>)"
    using e by (simp add: evictBatch_alt [OF wf])
  ultimately show ?thesis
    using ss by blast
qed

lemma monitorTick_cases: "monitorTick c r = Inr c \<or> (\<exists>n. monitorTick c r = evictBatch c n)"
  by (auto simp: monitorTick_def Let_def)

lemma absentKey_memUsage_update [simp]: "absentKey (c\<lparr>memUsage := m\<rparr>) k = absentKey c k"
  by (simp add: absentKey_def split: sum.splits)

lemma absentKey_swept:
  assumes "absentKey c k" "list_all2 sweptFrom (shards c) ss"
  shows "absentKey (c\<lparr>shards := ss\<rparr>) k"
proof (cases "getShard c k")
  case (Inl e)
  then show ?thesis
    using assms(2) by (simp add: absentKey_def list_all2_lengthD)
next
  case (Inr i)
  then have "i < length (shards c)" by (rule getShard_less)
  then have "sweptFrom (shards c ! i) (ss ! i)"
    using assms(2) by (simp add: list_all2_nthD)
  then show ?thesis
    using assms Inr by (simp add: absentKey_def list_all2_lengthD sweptFrom_def)
qed

lemma items_shardGet [simp]: "items (shardGet s k) = items s"
  by (simp add: shardGet_def split: option.splits)

lemma step_inv:
  assumes inv: "cache_inv c"
  shows "\<exists>c'. step c x = Inr c' \<and> cache_inv c' \<and>
           (absentKey c k \<and> (\<forall>v. x \<noteq> CallPut k v) \<longrightarrow> absentKey c' k)"
proof (cases x)
  case (CallGet k')
  from cache_inv_getShard [OF inv, of k'] obtain i where i: "getShard c k' = Inr i" "i < length (shards c)"
    by blast
  let ?c' = "c\<lparr>shards := (shards c)[i := shardGet (shards c ! i) k']\<rparr>"
  have "cache_inv ?c'"
    using inv i by (intro cache_inv_shard_update shard_inv_shardGet cache_inv_nth)
  moreover have "absentKey c k \<Longrightarrow> absentKey ?c' k"
    using i(2) by (auto simp: absentKey_def nth_list_update split: sum.splits)
  ultimately show ?thesis
    using i by (simp add: CallGet Get_alt)
next
  case (CallPut k' v)
  from cache_inv_getShard [OF inv, of k'] obtain i where i: "getShard c k' = Inr i" "i < length (shards c)"
    by blast
  let ?c' = "c\<lparr>shards := (shards c)[i := shardPut (shards c ! i) k' v]\<rparr>"
  have "cache_inv ?c'"
    using inv i by (intro cache_inv_shard_update shard_inv_shardPut cache_inv_nth)
  moreover have "absentKey c k \<Longrightarrow> k' \<noteq> k \<Longrightarrow> absentKey ?c' k"
    using i(2) by (auto simp: absentKey_def nth_list_update split: sum.splits)
  ultimately show ?thesis
    using i by (auto simp: CallPut Put_alt)
next
  case (CallEvictBatch n)
  from evictBatch_inv [OF inv, of n] show ?thesis
    using absentKey_swept [of c k] by (auto simp: CallEvictBatch)
next
  case (CallMonitorTick r)
  from monitorTick_cases [of c r] show ?thesis
  proof
    assume "monitorTick c r = Inr c"
    then show ?thesis using inv by (simp add: CallMonitorTick)
  next
    assume "\<exists>n. monitorTick c r = evictBatch c n"
    then obtain n where "monitorTick c r = evictBatch c n" ..
    with evictBatch_inv [OF inv, of n] show ?thesis
      using absentKey_swept [of c k] by (auto simp: CallMonitorTick)
  qed
qed

lemma run_inv:
  assumes "cache_inv c"
  shows "\<exists>c'. run c xs = Inr c' \<and> cache_inv c' \<and>
           (absentKey c k \<and> (\<forall>v. CallPut k v \<notin> set xs) \<longrightarrow> absentKey c' k)"
  using assms
proof (induction xs arbitrary: c)
  case Nil
  then show ?case by simp
next
  case (Cons x xs)
  from step_inv [OF Cons.prems, of x k] obtain c1
    where c1: "step c x = Inr c1" "cache_inv c1"
      "absentKey c k \<and> (\<forall>v. x \<noteq> CallPut k v) \<longrightarrow> absentKey c1 k"
    by blast
  from Cons.IH [OF c1(2)] obtain c'
    where "run c1 xs = Inr c'" "cache_inv c'"
      "absentKey c1 k \<and> (\<forall>v. CallPut k v \<notin> set xs) \<longrightarrow> absentKey c' k"
    by blast
  then show ?case
    using c1 by auto
qed

lemma shard_inv_items_queueKeys: "shard_inv s \<Longrightarrow> items s k = None \<longleftrightarrow> k \<notin> set (queueKeys s)"
  by (auto simp: shard_inv_def)

lemma holdsKey_absentKey: "cache_inv c \<Longrightarrow> holdsKey c k \<longleftrightarrow> \<not> absentKey c k"
  using cache_inv_getShard [of c k]
  by (auto simp: holdsKey_def absentKey_def shard_inv_items_queueKeys cache_inv_nth)

lemma Get_absent: "cache_wf c \<Longrightarrow> absentKey c k \<Longrightarrow> Get c k = Inr (([], False), c)"
  using getShard_wf [of c k]
  by (auto simp: absentKey_def Get_alt shardLookup_def shardGet_def)

lemma cache_inv_newCacheOf: "0 < n \<Longrightarrow> n < 2 ^ 32 \<Longrightarrow> cache_inv (newCacheOf n)"
  using cache_wf_newCacheOf [of n]
  by (simp add: cache_inv_def) (simp add: newCacheOf_def shard_inv_newShard)

lemma cache_inv_NewCache: "cache_inv NewCache"
  by (simp add: NewCache_def DefaultShards_def cache_inv_newCacheOf)

section \<open>The counter and the live sizes\<close>

lemma evictBatchLoop_skip:
  assumes "0 \<le> i" "i \<le> m" "m \<le> shardCount c" "m \<le> int (length (shards c))"
    and "\<forall>j. nat i \<le> j \<and> j < nat m \<longrightarrow> itemsList (shards c ! j) = []"
  shows "evictBatchLoop count p i ev c = evictBatchLoop count p m ev c"
  using assms
proof (induction "nat (m - i)" arbitrary: i rule: less_induct)
  case less
  show ?case
  proof (cases "i < m \<and> ev < count")
    case False
    then show ?thesis
      using less.prems by (subst (1 2) evictBatchLoop.simps) auto
  next
    case True
    then have e: "itemsList (shards c ! nat i) = []"
      using less.prems by simp
    have "evictBatchLoop count p i ev c = evictBatchLoop count p (i + 1) ev c"
      using True less.prems by (subst evictBatchLoop.simps) (simp add: evict_empty [OF e])
    also have "\<dots> = evictBatchLoop count p m ev c"
      using True less.prems by (intro less.hyps) auto
    finally show ?thesis .
  qed
qed

lemma sum_list_map_zero: "\<forall>x \<in> set xs. f x = (0::'a::monoid_add) \<Longrightarrow> sum_list (map f xs) = 0"
  by (induction xs) simp_all

lemma sum_list_update_word:
  "i < length xs \<Longrightarrow> sum_list (xs[i := x]) = sum_list xs - xs ! i + (x :: 'a::ab_group_add)"
proof (induction xs arbitrary: i)
  case Nil
  then show ?case by simp
next
  case (Cons a xs)
  then show ?case by (cases i) (simp_all add: algebra_simps)
qed

lemma liveSize_shard_update:
  "i < length (shards c) \<Longrightarrow>
   liveSize (c\<lparr>shards := (shards c)[i := s]\<rparr>) = liveSize c - shardSize (shards c ! i) + shardSize s"
  by (simp add: liveSize_def map_update sum_list_update_word)

lemma liveSize_memUsage_update [simp]: "liveSize (c\<lparr>memUsage := m\<rparr>) = liveSize c"
  by (simp add: liveSize_def)

lemma shardSize_newShard: "shardSize newShard = 0"
  by (simp add: shardSize_def newShard_def)

lemma liveSize_NewCache: "liveSize NewCache = 0"
  unfolding liveSize_def shards_NewCache
  by (rule sum_list_map_zero) (simp add: shardSize_newShard)

lemma liveSize_NewCache_update:
  assumes "i < 1024"
  shows "liveSize (NewCache\<lparr>shards := (replicate 1024 newShard)[i := s]\<rparr>) = shardSize s"
proof -
  have "liveSize (NewCache\<lparr>shards := (shards NewCache)[i := s]\<rparr>) = shardSize s"
    using assms by (subst liveSize_shard_update) (simp_all add: liveSize_NewCache shards_NewCache shardSize_newShard)
  then show ?thesis
    by (simp add: shards_NewCache)
qed

lemma Put_a1: "Put NewCache ''a'' ''1'' =
    Inr (NewCache\<lparr>shards := (replicate 1024 newShard)[382 := shardPut newShard ''a'' ''1''], memUsage := 2\<rparr>)"
  by (simp add: Put_alt getShard_NewCache_a shards_NewCache memUsage_NewCache putDelta_def entrySize_def newShard_def)

lemma evict_a1: "evict (shardPut newShard ''a'' ''1'') 1 =
   Inr (1, newShard\<lparr>elemValue := (elemValue newShard)(0 := \<lparr>key = ''a'', referenced = False, size' = 2\<rparr>), nextElem := 1\<rparr>)"
  by (simp add: evict_def evictLoop_step sweepClear_def sweepRemove_def shardPut_def newShard_def Let_def
      nextOrFirst_def entrySize_def)

lemma shardCount_NewCache: "shardCount NewCache = 1024"
  by (simp add: NewCache_def newCacheOf_def DefaultShards_def)

lemma evictBatch_a1:
  "evictBatch (NewCache\<lparr>shards := (replicate 1024 newShard)[382 := shardPut newShard ''a'' ''1''], memUsage := 2\<rparr>) 1 =
   Inr (NewCache\<lparr>shards := (replicate 1024 newShard)
          [382 := newShard\<lparr>elemValue := (elemValue newShard)(0 := \<lparr>key = ''a'', referenced = False, size' = 2\<rparr>),
                          nextElem := 1\<rparr>],
        memUsage := 2\<rparr>)"
proof -
  let ?c = "NewCache\<lparr>shards := (replicate 1024 newShard)[382 := shardPut newShard ''a'' ''1''], memUsage := 2\<rparr>"
  have skip: "evictBatchLoop 1 1 0 0 ?c = evictBatchLoop 1 1 382 0 ?c"
    by (rule evictBatchLoop_skip) (simp_all add: shardCount_NewCache newShard_def)
  have "evictBatchLoop 1 1 382 0 ?c =
    Inr (1, NewCache\<lparr>shards := (replicate 1024 newShard)
          [382 := newShard\<lparr>elemValue := (elemValue newShard)(0 := \<lparr>key = ''a'', referenced = False, size' = 2\<rparr>),
                          nextElem := 1\<rparr>],
        memUsage := 2\<rparr>)"
    by (subst evictBatchLoop.simps, simp add: shardCount_NewCache evict_a1)
       (subst evictBatchLoop.simps, simp)
  then show ?thesis
    by (simp add: evictBatch_def shardCount_NewCache signed_divide_int_def skip)
qed

text \<open>
  Claim C1 has the counter equal to the sum of the sizes of the live entries, with the
  sweep reporting each evicted entry's size as a negative delta. \<open>Put\<close> adds its deltas
  to the counter; \<open>evict\<close> has no access to the counter and reports nothing. On the fresh cache,
  after \<open>Put "a" "1"\<close> both are 2; after \<open>evictBatch 1\<close> the entry is gone (\<open>Get "a"\<close>
  finds nothing, the live sizes sum to 0) and the counter is still 2.
\<close>

theorem evict_leaves_counter:
  "memUsageAfter NewCache [CallPut ''a'' ''1''] = Inr 2 \<and>
   liveSizeAfter NewCache [CallPut ''a'' ''1''] = Inr 2 \<and>
   lookupAfter NewCache [CallPut ''a'' ''1'', CallEvictBatch 1] ''a'' = Inr ([], False) \<and>
   memUsageAfter NewCache [CallPut ''a'' ''1'', CallEvictBatch 1] = Inr 2 \<and>
   liveSizeAfter NewCache [CallPut ''a'' ''1'', CallEvictBatch 1] = Inr 0"
proof -
  have r1: "run NewCache [CallPut ''a'' ''1''] =
      Inr (NewCache\<lparr>shards := (replicate 1024 newShard)[382 := shardPut newShard ''a'' ''1''], memUsage := 2\<rparr>)"
    by (simp add: Put_a1)
  have r2: "run NewCache [CallPut ''a'' ''1'', CallEvictBatch 1] =
      Inr (NewCache\<lparr>shards := (replicate 1024 newShard)
          [382 := newShard\<lparr>elemValue := (elemValue newShard)(0 := \<lparr>key = ''a'', referenced = False, size' = 2\<rparr>),
                          nextElem := 1\<rparr>],
        memUsage := 2\<rparr>)"
    by (simp add: Put_a1 evictBatch_a1)
  have l1: "liveSizeAfter NewCache [CallPut ''a'' ''1''] = Inr 2"
    unfolding liveSizeAfter_def r1
    by (simp add: liveSize_NewCache_update)
       (simp add: shardSize_def shardPut_def newShard_def Let_def entrySize_def)
  have l2: "liveSizeAfter NewCache [CallPut ''a'' ''1'', CallEvictBatch 1] = Inr 0"
    unfolding liveSizeAfter_def r2
    by (simp add: liveSize_NewCache_update)
       (simp add: shardSize_def newShard_def)
  have g: "lookupAfter NewCache [CallPut ''a'' ''1'', CallEvictBatch 1] ''a'' = Inr ([], False)"
    unfolding lookupAfter_def r2
    by (simp add: Get_alt getShard_NewCache_a shards_NewCache shardLookup_def) (simp add: newShard_def)
  have m1: "memUsageAfter NewCache [CallPut ''a'' ''1''] = Inr 2"
    unfolding memUsageAfter_def r1 by simp
  have m2: "memUsageAfter NewCache [CallPut ''a'' ''1'', CallEvictBatch 1] = Inr 2"
    unfolding memUsageAfter_def r2 by simp
  show ?thesis
    using m1 l1 g m2 l2 by blast
qed

section \<open>Put then Get\<close>

lemma lookupAfter_Put:
  assumes "cache_wf c"
  shows "lookupAfter c [CallPut k v] k = Inr (v, True)"
proof -
  obtain i where i: "getShard c k = Inr i"
    using getShard_wf [OF assms] by blast
  have il: "i < length (shards c)"
    using i by (rule getShard_less)
  show ?thesis
    using il by (simp add: lookupAfter_def Put_alt Get_alt i shardLookup_def)
qed

lemma lookupAfter_absent:
  assumes "cache_inv c" "absentKey c k" "\<forall>v. CallPut k v \<notin> set xs"
  shows "lookupAfter c xs k = Inr ([], False)"
proof -
  from run_inv [OF assms(1), of xs k] obtain c'
    where c': "run c xs = Inr c'" "cache_inv c'" "absentKey c' k"
    using assms(2,3) by blast
  have "cache_wf c'"
    using c'(2) by (simp add: cache_inv_def)
  then show ?thesis
    using c' by (simp add: lookupAfter_def Get_absent)
qed

lemma absentKey_NewCache: "absentKey NewCache k"
  using getShard_less [of NewCache k]
  by (auto simp: absentKey_def shards_NewCache newShard_def split: sum.splits)

text \<open>
  Claim C2. On every cache that satisfies the invariants, \<open>Get k\<close> right after \<open>Put k v\<close>
  returns \<open>(v, true)\<close>. A key that was never put is not found: after any calls on the fresh
  cache (more generally, on a cache whose shard for \<open>k\<close> does not hold \<open>k\<close>) none of which is
  a \<open>Put\<close> of \<open>k\<close>, \<open>Get k\<close> returns \<open>("", false)\<close>. A key that has been evicted is not found:
  when \<open>evictBatch\<close> has taken the node of \<open>k\<close> out of the queue of its shard, \<open>Get k\<close> returns
  \<open>("", false)\<close> and leaves the cache as it is.
\<close>

theorem Put_Get_roundtrip:
  assumes "cache_inv c"
  shows "lookupAfter c [CallPut k v] k = Inr (v, True) \<and>
         ((\<forall>v'. CallPut k v' \<notin> set xs) \<longrightarrow> lookupAfter NewCache xs k = Inr ([], False)) \<and>
         (\<not> holdsKey c k \<and> (\<forall>v'. CallPut k v' \<notin> set xs) \<longrightarrow> lookupAfter c xs k = Inr ([], False)) \<and>
         (\<forall>n c'. holdsKey c k \<and> evictBatch c n = Inr c' \<and> \<not> holdsKey c' k \<longrightarrow>
                   Get c' k = Inr (([], False), c'))"
proof -
  have wf: "cache_wf c"
    using assms by (simp add: cache_inv_def)
  have a: "lookupAfter c [CallPut k v] k = Inr (v, True)"
    using wf by (rule lookupAfter_Put)
  have b: "(\<forall>v'. CallPut k v' \<notin> set xs) \<longrightarrow> lookupAfter NewCache xs k = Inr ([], False)"
    using lookupAfter_absent [OF cache_inv_NewCache absentKey_NewCache] by blast
  have b': "\<not> holdsKey c k \<and> (\<forall>v'. CallPut k v' \<notin> set xs) \<longrightarrow> lookupAfter c xs k = Inr ([], False)"
    using lookupAfter_absent [OF assms, of k xs] holdsKey_absentKey [OF assms, of k] by blast
  have c: "Get c' k = Inr (([], False), c')" if "evictBatch c n = Inr c'" "\<not> holdsKey c' k" for n c'
  proof -
    from evictBatch_inv [OF assms, of n] that(1) have inv': "cache_inv c'"
      by auto
    then have "absentKey c' k" "cache_wf c'"
      using that(2) holdsKey_absentKey [OF inv', of k] by (simp_all add: cache_inv_def)
    then show ?thesis
      by (simp add: Get_absent)
  qed
  show ?thesis
    using a b b' c by blast
qed

lemma cache_inv_Put_a1:
  "cache_inv (NewCache\<lparr>shards := (replicate 1024 newShard)[382 := shardPut newShard ''a'' ''1''], memUsage := 2\<rparr>)"
proof -
  have "cache_inv (NewCache\<lparr>shards := (shards NewCache)[382 := shardPut newShard ''a'' ''1'']\<rparr>)"
    by (intro cache_inv_shard_update cache_inv_NewCache shard_inv_shardPut shard_inv_newShard)
  then show ?thesis
    by (simp add: shards_NewCache)
qed

theorem Put_Get_roundtrip_witness:
  "cache_inv NewCache \<and>
   lookupAfter NewCache [CallPut ''a'' ''1''] ''a'' = Inr (''1'', True) \<and>
   lookupAfter NewCache [CallGet ''a'', CallPut ''b'' ''2'', CallEvictBatch 5] ''a'' = Inr ([], False) \<and>
   holdsKey (NewCache\<lparr>shards := (replicate 1024 newShard)[382 := shardPut newShard ''a'' ''1''], memUsage := 2\<rparr>) ''a'' \<and>
   evictBatch (NewCache\<lparr>shards := (replicate 1024 newShard)[382 := shardPut newShard ''a'' ''1''], memUsage := 2\<rparr>) 1 =
     Inr (NewCache\<lparr>shards := (replicate 1024 newShard)
          [382 := newShard\<lparr>elemValue := (elemValue newShard)(0 := \<lparr>key = ''a'', referenced = False, size' = 2\<rparr>),
                          nextElem := 1\<rparr>],
        memUsage := 2\<rparr>) \<and>
   \<not> holdsKey (NewCache\<lparr>shards := (replicate 1024 newShard)
          [382 := newShard\<lparr>elemValue := (elemValue newShard)(0 := \<lparr>key = ''a'', referenced = False, size' = 2\<rparr>),
                          nextElem := 1\<rparr>],
        memUsage := 2\<rparr>) ''a'' \<and>
   Get (NewCache\<lparr>shards := (replicate 1024 newShard)
          [382 := newShard\<lparr>elemValue := (elemValue newShard)(0 := \<lparr>key = ''a'', referenced = False, size' = 2\<rparr>),
                          nextElem := 1\<rparr>],
        memUsage := 2\<rparr>) ''a'' =
     Inr (([], False), NewCache\<lparr>shards := (replicate 1024 newShard)
          [382 := newShard\<lparr>elemValue := (elemValue newShard)(0 := \<lparr>key = ''a'', referenced = False, size' = 2\<rparr>),
                          nextElem := 1\<rparr>],
        memUsage := 2\<rparr>)"
proof -
  let ?cA = "NewCache\<lparr>shards := (replicate 1024 newShard)[382 := shardPut newShard ''a'' ''1''], memUsage := 2\<rparr>"
  let ?cB = "NewCache\<lparr>shards := (replicate 1024 newShard)
          [382 := newShard\<lparr>elemValue := (elemValue newShard)(0 := \<lparr>key = ''a'', referenced = False, size' = 2\<rparr>),
                          nextElem := 1\<rparr>],
        memUsage := 2\<rparr>"
  have h1: "holdsKey ?cA ''a''"
    by (simp add: holdsKey_def getShard_NewCache_a shards_NewCache)
       (simp add: queueKeys_def shardPut_def newShard_def Let_def)
  have h2: "\<not> holdsKey ?cB ''a''"
    by (simp add: holdsKey_def getShard_NewCache_a shards_NewCache)
       (simp add: queueKeys_def newShard_def)
  have np: "\<forall>v'. CallPut ''a'' v' \<notin> set [CallGet ''a'', CallPut ''b'' ''2'', CallEvictBatch 5]"
    by simp
  from Put_Get_roundtrip [OF cache_inv_NewCache, of "''a''" "''1''" "[CallGet ''a'', CallPut ''b'' ''2'', CallEvictBatch 5]"]
  have ab: "lookupAfter NewCache [CallPut ''a'' ''1''] ''a'' = Inr (''1'', True)"
    "lookupAfter NewCache [CallGet ''a'', CallPut ''b'' ''2'', CallEvictBatch 5] ''a'' = Inr ([], False)"
    using np by blast+
  from Put_Get_roundtrip [OF cache_inv_Put_a1, of "''a''" "''1''" "[]"] h1 h2 evictBatch_a1
  have c: "Get ?cB ''a'' = Inr (([], False), ?cB)"
    by blast
  show ?thesis
    using cache_inv_NewCache ab h1 evictBatch_a1 h2 c by blast
qed

section \<open>The shard invariant\<close>

lemma shard_inv_bij:
  assumes "shard_inv s"
  shows "bij_betw (\<lambda>e. key (elemValue s e)) (set (itemsList s)) (dom (items s))"
proof -
  have "inj_on (\<lambda>e. key (elemValue s e)) (set (itemsList s))"
    using shard_inv_key_inj [OF assms] by (auto intro: inj_onI)
  moreover have "(\<lambda>e. key (elemValue s e)) ` set (itemsList s) = dom (items s)"
    using shard_invD(5) [OF assms] by simp
  ultimately show ?thesis
    by (simp add: bij_betw_def)
qed

lemma Get_inv:
  assumes "cache_inv c"
  shows "\<exists>r c'. Get c k = Inr (r, c') \<and> cache_inv c'"
  using step_inv [OF assms, of "CallGet k" k] by (cases "Get c k") auto

lemma Put_inv:
  assumes "cache_inv c"
  shows "\<exists>c'. Put c k v = Inr c' \<and> cache_inv c'"
  using step_inv [OF assms, of "CallPut k v" k] by auto

lemma monitorTick_inv:
  assumes "cache_inv c"
  shows "\<exists>c'. monitorTick c r = Inr c' \<and> cache_inv c'"
  using step_inv [OF assms, of "CallMonitorTick r" "[]"] by auto

text \<open>
  Claim C8. The fresh cache satisfies the shard invariant in every shard, and \<open>Get\<close>, \<open>Put\<close>,
  the sweep \<open>evict\<close> of a shard, \<open>evictBatch\<close> and a monitor tick return (they do not panic)
  and preserve it. The invariant is what the claim says: in every shard the queue has no
  node twice, the keys of the lookup map are in bijection with the nodes of the queue
  (through the key a node carries), \<open>elements\<close> maps the key of each node to that node,
  and the clock hand is a node of the queue when the queue is non-empty and nil when it
  is empty.
\<close>

theorem operations_preserve_shard_inv:
  assumes "cache_inv c"
  shows "cache_inv NewCache \<and>
         (\<exists>r c'. Get c k = Inr (r, c') \<and> cache_inv c') \<and>
         (\<exists>c'. Put c k v = Inr c' \<and> cache_inv c') \<and>
         (\<exists>c'. evictBatch c n = Inr c' \<and> cache_inv c') \<and>
         (\<exists>c'. monitorTick c r = Inr c' \<and> cache_inv c') \<and>
         (\<forall>s \<in> set (shards c). \<exists>m s'. evict s n = Inr (m, s') \<and> shard_inv s') \<and>
         (\<forall>s \<in> set (shards c).
            distinct (itemsList s) \<and>
            bij_betw (\<lambda>e. key (elemValue s e)) (set (itemsList s)) (dom (items s)) \<and>
            (\<forall>e \<in> set (itemsList s). elements s (key (elemValue s e)) = Some e) \<and>
            dom (elements s) = dom (items s) \<and>
            (itemsList s = [] \<longrightarrow> clockHand s = None) \<and>
            (itemsList s \<noteq> [] \<longrightarrow> (\<exists>h \<in> set (itemsList s). clockHand s = Some h)))"
proof -
  have ev: "\<exists>c'. evictBatch c n = Inr c' \<and> cache_inv c'"
    using evictBatch_inv [OF assms, of n] by blast
  have sw: "\<exists>m s'. evict s n = Inr (m, s') \<and> shard_inv s'" if "s \<in> set (shards c)" for s
  proof -
    have "shard_inv s"
      using assms that by (simp add: cache_inv_def)
    from evict_sweep [OF this, of n] show ?thesis
      by blast
  qed
  have meaning: "distinct (itemsList s) \<and>
            bij_betw (\<lambda>e. key (elemValue s e)) (set (itemsList s)) (dom (items s)) \<and>
            (\<forall>e \<in> set (itemsList s). elements s (key (elemValue s e)) = Some e) \<and>
            dom (elements s) = dom (items s) \<and>
            (itemsList s = [] \<longrightarrow> clockHand s = None) \<and>
            (itemsList s \<noteq> [] \<longrightarrow> (\<exists>h \<in> set (itemsList s). clockHand s = Some h))"
    if "s \<in> set (shards c)" for s
  proof -
    have inv: "shard_inv s"
      using assms that by (simp add: cache_inv_def)
    note D = shard_invD [OF inv]
    have "itemsList s \<noteq> [] \<longrightarrow> (\<exists>h \<in> set (itemsList s). clockHand s = Some h)"
      using D(6,7) by (cases "clockHand s") auto
    moreover have "itemsList s = [] \<longrightarrow> clockHand s = None"
      using D(7) by (cases "clockHand s") auto
    ultimately show ?thesis
      using D(1,3,4,5) shard_inv_bij [OF inv] by simp
  qed
  show ?thesis
    using cache_inv_NewCache Get_inv [OF assms] Put_inv [OF assms] ev monitorTick_inv [OF assms] sw meaning
    by blast
qed

theorem operations_preserve_shard_inv_witness:
  "cache_inv (NewCache\<lparr>shards := (replicate 1024 newShard)[382 := shardPut newShard ''a'' ''1''], memUsage := 2\<rparr>) \<and>
   (\<exists>r c'. Get (NewCache\<lparr>shards := (replicate 1024 newShard)[382 := shardPut newShard ''a'' ''1''], memUsage := 2\<rparr>) ''a'' = Inr (r, c') \<and> cache_inv c') \<and>
   (\<exists>c'. Put (NewCache\<lparr>shards := (replicate 1024 newShard)[382 := shardPut newShard ''a'' ''1''], memUsage := 2\<rparr>) ''a'' ''22'' = Inr c' \<and> cache_inv c') \<and>
   (\<exists>c'. evictBatch (NewCache\<lparr>shards := (replicate 1024 newShard)[382 := shardPut newShard ''a'' ''1''], memUsage := 2\<rparr>) 1 = Inr c' \<and> cache_inv c') \<and>
   (\<exists>m s'. evict (shardPut newShard ''a'' ''1'') 1 = Inr (m, s') \<and> shard_inv s') \<and>
   bij_betw (\<lambda>e. key (elemValue (shardPut newShard ''a'' ''1'') e))
     (set (itemsList (shardPut newShard ''a'' ''1''))) (dom (items (shardPut newShard ''a'' ''1''))) \<and>
   clockHand (shardPut newShard ''a'' ''1'') = Some 0 \<and> itemsList (shardPut newShard ''a'' ''1'') = [0]"
proof -
  let ?c = "NewCache\<lparr>shards := (replicate 1024 newShard)[382 := shardPut newShard ''a'' ''1''], memUsage := 2\<rparr>"
  have m: "shardPut newShard ''a'' ''1'' \<in> set (shards ?c)"
    by (simp add: set_update_memI)
  have h: "clockHand (shardPut newShard ''a'' ''1'') = Some 0 \<and> itemsList (shardPut newShard ''a'' ''1'') = [0]"
    by (simp add: shardPut_def newShard_def Let_def)
  from operations_preserve_shard_inv [OF cache_inv_Put_a1, of "''a''" "''22''" 1 0] m h
  show ?thesis
    using cache_inv_Put_a1 by blast
qed

section \<open>Put on an existing key\<close>

lemma shardPut_existing:
  assumes "shard_inv s" "items s k = Some old"
  shows "\<exists>el. elements s k = Some el \<and> el \<in> set (itemsList s) \<and>
           shardPut s k v =
             s\<lparr>items := (items s)(k \<mapsto> v),
               elemValue := (elemValue s)(el := \<lparr>key = k, referenced = True, size' = entrySize k v\<rparr>)\<rparr>"
proof -
  have "elements s k \<noteq> None"
    using shard_inv_items_elements [OF assms(1), of k] assms(2) by simp
  then obtain el where el: "elements s k = Some el"
    by auto
  from shard_inv_elements [OF assms(1) el] have e: "el \<in> set (itemsList s)" "key (elemValue s el) = k"
    by simp_all
  have "(elemValue s el)\<lparr>referenced := True, size' := entrySize k v\<rparr> =
      \<lparr>key = k, referenced = True, size' = entrySize k v\<rparr>"
    using e(2) by (cases "elemValue s el") simp
  then show ?thesis
    using el e(1) assms(2) by (simp add: shardPut_def)
qed

text \<open>
  Claim C9. \<open>Put k v\<close> on a key that exists (in a cache satisfying the invariants, with \<open>i\<close>
  the shard \<open>k\<close> routes to) returns, and in that shard: the value of \<open>k\<close> is replaced and
  no other value changes; the entry of \<open>k\<close> (the payload of the node \<open>el\<close> that \<open>elements\<close>
  records for \<open>k\<close>) gets \<open>referenced = true\<close> and the recomputed size \<open>len k + len v\<close>, and
  no other payload changes; the queue, the clock hand, \<open>elements\<close> and the set of stored
  keys are unchanged. No other shard changes, nor any field of the cache but the counter.
\<close>

theorem Put_existing_key_frame:
  assumes "cache_inv c" "getShard c k = Inr i" "items (shards c ! i) k = Some old"
  shows "\<exists>c' el. Put c k v = Inr c' \<and>
           elements (shards c ! i) k = Some el \<and> el \<in> set (itemsList (shards c ! i)) \<and>
           items (shards c' ! i) = (items (shards c ! i))(k \<mapsto> v) \<and>
           elemValue (shards c' ! i) = (elemValue (shards c ! i))
             (el := \<lparr>key = k, referenced = True, size' = word_of_nat (length k) + word_of_nat (length v)\<rparr>) \<and>
           itemsList (shards c' ! i) = itemsList (shards c ! i) \<and>
           clockHand (shards c' ! i) = clockHand (shards c ! i) \<and>
           elements (shards c' ! i) = elements (shards c ! i) \<and>
           nextElem (shards c' ! i) = nextElem (shards c ! i) \<and>
           dom (items (shards c' ! i)) = dom (items (shards c ! i)) \<and>
           (\<forall>j. j \<noteq> i \<longrightarrow> shards c' ! j = shards c ! j) \<and>
           length (shards c') = length (shards c) \<and> shardCount c' = shardCount c \<and>
           maxMemoryPct c' = maxMemoryPct c \<and> stopChan c' = stopChan c"
proof -
  let ?s = "shards c ! i"
  have il: "i < length (shards c)"
    using assms(2) by (rule getShard_less)
  have inv: "shard_inv ?s"
    using assms(1) il by (rule cache_inv_nth)
  from shardPut_existing [OF inv assms(3), of v] obtain el
    where el: "elements ?s k = Some el" "el \<in> set (itemsList ?s)"
      and sp: "shardPut ?s k v =
             ?s\<lparr>items := (items ?s)(k \<mapsto> v),
               elemValue := (elemValue ?s)(el := \<lparr>key = k, referenced = True, size' = entrySize k v\<rparr>)\<rparr>"
    by blast
  let ?c' = "c\<lparr>shards := (shards c)[i := shardPut ?s k v], memUsage := memUsage c + putDelta ?s k v\<rparr>"
  have p: "Put c k v = Inr ?c'"
    by (simp add: Put_alt assms(2))
  have d: "dom ((items ?s)(k \<mapsto> v)) = dom (items ?s)"
    using assms(3) by auto
  have "elements ?s k = Some el \<and> el \<in> set (itemsList ?s) \<and>
           items (shards ?c' ! i) = (items ?s)(k \<mapsto> v) \<and>
           elemValue (shards ?c' ! i) = (elemValue ?s)
             (el := \<lparr>key = k, referenced = True, size' = word_of_nat (length k) + word_of_nat (length v)\<rparr>) \<and>
           itemsList (shards ?c' ! i) = itemsList ?s \<and>
           clockHand (shards ?c' ! i) = clockHand ?s \<and>
           elements (shards ?c' ! i) = elements ?s \<and>
           nextElem (shards ?c' ! i) = nextElem ?s \<and>
           dom (items (shards ?c' ! i)) = dom (items ?s) \<and>
           (\<forall>j. j \<noteq> i \<longrightarrow> shards ?c' ! j = shards c ! j) \<and>
           length (shards ?c') = length (shards c) \<and> shardCount ?c' = shardCount c \<and>
           maxMemoryPct ?c' = maxMemoryPct c \<and> stopChan ?c' = stopChan c"
    using el d il by (simp add: sp entrySize_def)
  with p show ?thesis
    by blast
qed

theorem Put_existing_key_frame_witness:
  "cache_inv (NewCache\<lparr>shards := (replicate 1024 newShard)[382 := shardPut newShard ''a'' ''1''], memUsage := 2\<rparr>) \<and>
   getShard (NewCache\<lparr>shards := (replicate 1024 newShard)[382 := shardPut newShard ''a'' ''1''], memUsage := 2\<rparr>) ''a'' = Inr 382 \<and>
   items (shards (NewCache\<lparr>shards := (replicate 1024 newShard)[382 := shardPut newShard ''a'' ''1''], memUsage := 2\<rparr>) ! 382) ''a'' = Some ''1'' \<and>
   (\<exists>c'. Put (NewCache\<lparr>shards := (replicate 1024 newShard)[382 := shardPut newShard ''a'' ''1''], memUsage := 2\<rparr>) ''a'' ''22'' = Inr c' \<and>
      items (shards c' ! 382) ''a'' = Some ''22'' \<and>
      elemValue (shards c' ! 382) 0 = \<lparr>key = ''a'', referenced = True, size' = 3\<rparr> \<and>
      itemsList (shards c' ! 382) = [0] \<and> clockHand (shards c' ! 382) = Some 0)"
proof -
  let ?c = "NewCache\<lparr>shards := (replicate 1024 newShard)[382 := shardPut newShard ''a'' ''1''], memUsage := 2\<rparr>"
  have g: "getShard ?c ''a'' = Inr 382"
    by (simp add: getShard_NewCache_a shards_NewCache)
  have s: "shards ?c ! 382 = shardPut newShard ''a'' ''1''"
    by simp
  have i: "items (shards ?c ! 382) ''a'' = Some ''1''"
    unfolding s by simp
  have q: "elements (shards ?c ! 382) ''a'' = Some 0" "itemsList (shards ?c ! 382) = [0]"
    "clockHand (shards ?c ! 382) = Some 0"
    unfolding s by (simp_all add: shardPut_def newShard_def Let_def)
  from Put_existing_key_frame [OF cache_inv_Put_a1 g i, of "''22''"] obtain c' el
    where "Put ?c ''a'' ''22'' = Inr c'" "elements (shards ?c ! 382) ''a'' = Some el"
      "items (shards c' ! 382) = (items (shards ?c ! 382))(''a'' \<mapsto> ''22'')"
      "elemValue (shards c' ! 382) = (elemValue (shards ?c ! 382))
             (el := \<lparr>key = ''a'', referenced = True, size' = word_of_nat (length ''a'') + word_of_nat (length ''22'')\<rparr>)"
      "itemsList (shards c' ! 382) = itemsList (shards ?c ! 382)"
      "clockHand (shards c' ! 382) = clockHand (shards ?c ! 382)"
    by blast
  then have "Put ?c ''a'' ''22'' = Inr c' \<and>
      items (shards c' ! 382) ''a'' = Some ''22'' \<and>
      elemValue (shards c' ! 382) 0 = \<lparr>key = ''a'', referenced = True, size' = 3\<rparr> \<and>
      itemsList (shards c' ! 382) = [0] \<and> clockHand (shards c' ! 382) = Some 0"
    using q by simp
  then show ?thesis
    using cache_inv_Put_a1 g i by blast
qed

section \<open>The counter is never read\<close>

lemma sameButCounter_eq: "sameButCounter c1 c2 \<longleftrightarrow> c2 = c1\<lparr>memUsage := memUsage c2\<rparr>"
  by (cases c1; cases c2) (auto simp: sameButCounter_def)

lemma sameButCounter_memUsage [simp]: "sameButCounter c (c\<lparr>memUsage := m\<rparr>)"
  by (simp add: sameButCounter_def)

lemma sameButCounter_shards:
  "sameButCounter c1 c2 \<Longrightarrow> sameButCounter (c1\<lparr>shards := l\<rparr>) (c2\<lparr>shards := l\<rparr>)"
  by (simp add: sameButCounter_def)

lemma evictBatchLoop_memUsage:
  "evictBatchLoop count p i ev (c\<lparr>memUsage := m\<rparr>) =
     (case evictBatchLoop count p i ev c of
        Inl e \<Rightarrow> Inl e
      | Inr (t, c') \<Rightarrow> Inr (t, c'\<lparr>memUsage := m\<rparr>))"
proof (induction "nat (shardCount c - i)" arbitrary: i ev c rule: less_induct)
  case less
  show ?case
  proof (cases "i < shardCount c \<and> ev < count \<and> \<not> (i < 0 \<or> int (length (shards c)) \<le> i)")
    case False
    then show ?thesis
      by (subst (1 2) evictBatchLoop.simps) auto
  next
    case True
    show ?thesis
    proof (cases "evict (shards c ! nat i) p")
      case (Inl e)
      then show ?thesis
        using True by (subst (1 2) evictBatchLoop.simps) simp
    next
      case (Inr r)
      obtain n s' where r: "r = (n, s')" by (cases r)
      let ?c' = "c\<lparr>shards := (shards c)[nat i := s']\<rparr>"
      have m: "nat (shardCount ?c' - (i + 1)) < nat (shardCount c - i)"
        using True by simp
      have u: "c\<lparr>memUsage := m, shards := (shards c)[nat i := s']\<rparr> = ?c'\<lparr>memUsage := m\<rparr>"
        by simp
      show ?thesis
        using True Inr r less.hyps [OF m, of "ev + n"]
        by (subst (1 2) evictBatchLoop.simps) (simp add: u del: ShardedCache.update_convs)
    qed
  qed
qed

lemma evictBatch_memUsage:
  "evictBatch (c\<lparr>memUsage := m\<rparr>) n =
     (case evictBatch c n of Inl e \<Rightarrow> Inl e | Inr c' \<Rightarrow> Inr (c'\<lparr>memUsage := m\<rparr>))"
  by (simp add: evictBatch_def Let_def evictBatchLoop_memUsage split: sum.splits)

lemma monitorTick_memUsage:
  "monitorTick (c\<lparr>memUsage := m\<rparr>) r =
     (case monitorTick c r of Inl e \<Rightarrow> Inl e | Inr c' \<Rightarrow> Inr (c'\<lparr>memUsage := m\<rparr>))"
  by (simp add: monitorTick_def Let_def evictBatch_memUsage)

lemma Get_memUsage:
  "Get (c\<lparr>memUsage := m\<rparr>) k =
     (case Get c k of Inl e \<Rightarrow> Inl e | Inr (r, c') \<Rightarrow> Inr (r, c'\<lparr>memUsage := m\<rparr>))"
  by (simp add: Get_alt split: sum.splits)

lemma Put_sameButCounter:
  "rel_sum (=) sameButCounter (Put c k v) (Put (c\<lparr>memUsage := m\<rparr>) k v)"
  by (simp add: Put_alt sameButCounter_def split: sum.splits)

text \<open>
  Claim C10. No operation reads the counter: on two caches that agree on everything but
  \<open>memUsage\<close>, \<open>Get\<close>, \<open>Put\<close>, \<open>evictBatch\<close> and a monitor tick (for the same sampled ratio)
  return the same result or the same panic, and leave caches that again agree on
  everything but \<open>memUsage\<close>. The sweep \<open>evict\<close> of a shard takes the shard alone and has
  no counter to read.
\<close>

theorem counter_is_write_only:
  assumes "sameButCounter c1 c2"
  shows "rel_sum (=) (rel_prod (=) sameButCounter) (Get c1 k) (Get c2 k) \<and>
         rel_sum (=) sameButCounter (Put c1 k v) (Put c2 k v) \<and>
         rel_sum (=) sameButCounter (evictBatch c1 n) (evictBatch c2 n) \<and>
         rel_sum (=) sameButCounter (monitorTick c1 r) (monitorTick c2 r)"
proof -
  have c2: "c2 = c1\<lparr>memUsage := memUsage c2\<rparr>"
    using assms by (simp add: sameButCounter_eq)
  have "rel_sum (=) (rel_prod (=) sameButCounter) (Get c1 k) (Get (c1\<lparr>memUsage := memUsage c2\<rparr>) k)"
    by (cases "Get c1 k") (auto simp: Get_memUsage)
  moreover have "rel_sum (=) sameButCounter (Put c1 k v) (Put (c1\<lparr>memUsage := memUsage c2\<rparr>) k v)"
    by (rule Put_sameButCounter)
  moreover have "rel_sum (=) sameButCounter (evictBatch c1 n) (evictBatch (c1\<lparr>memUsage := memUsage c2\<rparr>) n)"
    by (cases "evictBatch c1 n") (auto simp: evictBatch_memUsage)
  moreover have "rel_sum (=) sameButCounter (monitorTick c1 r) (monitorTick (c1\<lparr>memUsage := memUsage c2\<rparr>) r)"
    by (cases "monitorTick c1 r") (auto simp: monitorTick_memUsage)
  ultimately show ?thesis
    by (subst (1 2 3 4) c2) blast
qed

theorem counter_is_write_only_witness:
  "sameButCounter NewCache (NewCache\<lparr>memUsage := 5\<rparr>) \<and>
   rel_sum (=) (rel_prod (=) sameButCounter) (Get NewCache ''a'') (Get (NewCache\<lparr>memUsage := 5\<rparr>) ''a'') \<and>
   rel_sum (=) sameButCounter (Put NewCache ''a'' ''1'') (Put (NewCache\<lparr>memUsage := 5\<rparr>) ''a'' ''1'') \<and>
   rel_sum (=) sameButCounter (evictBatch NewCache 200) (evictBatch (NewCache\<lparr>memUsage := 5\<rparr>) 200) \<and>
   rel_sum (=) sameButCounter (monitorTick NewCache 0.9) (monitorTick (NewCache\<lparr>memUsage := 5\<rparr>) 0.9)"
proof -
  have s: "sameButCounter NewCache (NewCache\<lparr>memUsage := 5\<rparr>)"
    by (simp add: sameButCounter_def)
  from counter_is_write_only [OF s, of "''a''" "''1''" 200 "0.9"] s show ?thesis
    by blast
qed

section \<open>Termination and bound of the sweep\<close>









section \<open>Batched eviction\<close>

lemma evictShardsSpec_all_empty:
  "\<forall>s \<in> set ss. itemsList s = [] \<Longrightarrow> evictShardsSpec tc p r ss = Inr (r, ss)"
  by (induction ss) (simp_all add: evict_empty)

lemma entryCount_zero: "entryCount c = 0 \<longleftrightarrow> (\<forall>s \<in> set (shards c). itemsList s = [])"
  by (auto simp: entryCount_def)

text \<open>
  Claim C6. For every \<open>totalCount \<ge> 1\<close> and every cache that satisfies the invariants,
  \<open>evictBatch totalCount\<close> returns, removes at most \<open>totalCount\<close> entries, and leaves an empty
  cache as it is (removing 0 entries). It is the procedure the specification words:
  with \<open>perShard = max 1 (totalCount div shardCount)\<close> the sweep \<open>evict perShard\<close> runs on the
  shards in index order until all are visited or the running total has reached
  \<open>totalCount\<close>; that procedure ends in the same cache, and its running total is the
  number of entries removed.
\<close>

theorem evictBatch_at_most_requested:
  assumes "cache_inv c" "1 \<le> totalCount"
  shows "\<exists>c'. evictBatch c totalCount = Inr c' \<and>
           entryCount c' \<le> entryCount c \<and>
           int (entryCount c) - int (entryCount c') \<le> totalCount \<and>
           (entryCount c = 0 \<longrightarrow> c' = c) \<and>
           evictBatchSpec c totalCount = Inr (int (entryCount c) - int (entryCount c'), c')"
proof -
  have wf: "cache_wf c" and invs: "\<forall>s \<in> set (shards c). shard_inv s"
    using assms(1) by (simp_all add: cache_inv_def)
  have n: "shardCount c = int (length (shards c))" "0 < shardCount c"
    using wf by (auto simp: cache_wf_def)
  let ?p = "max 1 (totalCount div shardCount c)"
  have sd: "totalCount sdiv shardCount c = totalCount div shardCount c"
    using assms(2) n(2) by (simp add: sdiv_nonneg)
  have "shardCount c * (totalCount div shardCount c) + totalCount mod shardCount c = totalCount"
    by simp
  moreover have "0 \<le> totalCount mod shardCount c"
    using n(2) by simp
  ultimately have "shardCount c * (totalCount div shardCount c) \<le> totalCount"
    by linarith
  then have p: "1 \<le> ?p \<and> (?p = 1 \<or> 0 + int (length (shards c)) * ?p \<le> totalCount)"
    using n(1) by (auto simp: max_def)
  from evictShardsSpec_inv [OF invs, of totalCount ?p 0] obtain t ss
    where e: "evictShardsSpec totalCount ?p 0 (shards c) = Inr (t, ss)"
      and ss: "list_all2 sweptFrom (shards c) ss" "0 \<le> t"
        "int (sum_list (map (\<lambda>s. length (itemsList s)) ss)) + (t - 0) =
           int (sum_list (map (\<lambda>s. length (itemsList s)) (shards c)))"
        "1 \<le> ?p \<and> (?p = 1 \<or> 0 + int (length (shards c)) * ?p \<le> totalCount) \<longrightarrow> t \<le> max 0 totalCount"
    by blast
  let ?c' = "c\<lparr>shards := ss\<rparr>"
  have r: "evictBatch c totalCount = Inr ?c'"
    using e by (simp add: evictBatch_alt [OF wf] sd)
  have cnt: "int (entryCount ?c') + t = int (entryCount c)"
    using ss(3) by (simp add: entryCount_def)
  have "t \<le> max 0 totalCount"
    using ss(4) p by blast
  then have le: "t \<le> totalCount"
    using assms(2) by simp
  have same: "?c' = c" if "entryCount c = 0"
  proof -
    have "\<forall>s \<in> set (shards c). itemsList s = []"
      using that by (simp add: entryCount_zero)
    then have "evictShardsSpec totalCount ?p 0 (shards c) = Inr (0, shards c)"
      by (rule evictShardsSpec_all_empty)
    then show ?thesis
      using e by simp
  qed
  have spec: "evictBatchSpec c totalCount = Inr (int (entryCount c) - int (entryCount ?c'), ?c')"
    using e cnt by (simp add: evictBatchSpec_def)
  show ?thesis
    using r cnt le ss(2) same spec by (intro exI [of _ ?c']) auto
qed

theorem evictBatch_at_most_requested_witness:
  "cache_inv (NewCache\<lparr>shards := (replicate 1024 newShard)[382 := shardPut newShard ''a'' ''1''], memUsage := 2\<rparr>) \<and>
   (1::int) \<le> 1 \<and>
   entryCount (NewCache\<lparr>shards := (replicate 1024 newShard)[382 := shardPut newShard ''a'' ''1''], memUsage := 2\<rparr>) = 1 \<and>
   (\<exists>c'. evictBatch (NewCache\<lparr>shards := (replicate 1024 newShard)[382 := shardPut newShard ''a'' ''1''], memUsage := 2\<rparr>) 1 = Inr c' \<and>
      entryCount c' = 0 \<and>
      evictBatchSpec (NewCache\<lparr>shards := (replicate 1024 newShard)[382 := shardPut newShard ''a'' ''1''], memUsage := 2\<rparr>) 1 = Inr (1, c')) \<and>
   entryCount NewCache = 0 \<and> evictBatch NewCache 200 = Inr NewCache"
proof -
  let ?c = "NewCache\<lparr>shards := (replicate 1024 newShard)[382 := shardPut newShard ''a'' ''1''], memUsage := 2\<rparr>"
  let ?c' = "NewCache\<lparr>shards := (replicate 1024 newShard)
          [382 := newShard\<lparr>elemValue := (elemValue newShard)(0 := \<lparr>key = ''a'', referenced = False, size' = 2\<rparr>),
                          nextElem := 1\<rparr>],
        memUsage := 2\<rparr>"
  have z: "entryCount NewCache = 0"
    by (simp add: entryCount_zero shards_NewCache newShard_def)
  have z': "entryCount ?c' = 0"
    by (auto simp: entryCount_zero newShard_def dest!: set_update_subset_insert [THEN subsetD])
  have one: "entryCount ?c = 1"
    using z by (simp add: entryCount_def shards_NewCache sum_list_update map_update)
      (simp add: shardPut_def newShard_def Let_def)
  from evictBatch_at_most_requested [OF cache_inv_Put_a1, of 1] obtain c'
    where c': "evictBatch ?c 1 = Inr c'"
      "evictBatchSpec ?c 1 = Inr (int (entryCount ?c) - int (entryCount c'), c')"
    by auto
  have "c' = ?c'"
    using c'(1) by (simp add: evictBatch_a1)
  then have a: "evictBatch ?c 1 = Inr c' \<and> entryCount c' = 0 \<and> evictBatchSpec ?c 1 = Inr (1, c')"
    using c' z' one by simp
  from evictBatch_at_most_requested [OF cache_inv_NewCache, of 200] z
  have b: "evictBatch NewCache 200 = Inr NewCache"
    by auto
  show ?thesis
    using cache_inv_Put_a1 one a z b by blast
qed

section \<open>The sweep on a shard filled by Puts\<close>

lemma evictLoop_clear_phase:
  assumes "distinct (xs @ ys)" "ys \<noteq> []" "itemsList s = xs @ ys" "clockHand s = Some (hd ys)"
    and "\<forall>e \<in> set ys. referenced (elemValue s e)"
    and "ev < count" "att + int (length ys) \<le> maxAttempts"
  shows "evictLoop count maxAttempts ev att s =
           evictLoop count maxAttempts ev (att + int (length ys))
             (s\<lparr>elemValue := (\<lambda>e. if e \<in> set ys then (elemValue s e)\<lparr>referenced := False\<rparr> else elemValue s e),
                clockHand := listFront (xs @ ys)\<rparr>)"
  using assms
proof (induction ys arbitrary: xs s att)
  case Nil
  then show ?case by simp
next
  case (Cons y ys)
  let ?s1 = "sweepClear s y"
  have d: "distinct (xs @ y # ys)"
    using Cons.prems(1) .
  have step: "evictLoop count maxAttempts ev att s = evictLoop count maxAttempts ev (att + 1) ?s1"
    using Cons.prems by (subst evictLoop_step) simp
  have nx: "nextOrFirst y (itemsList s) = listFront (ys @ xs @ [y])"
    using nextOrFirst_append [OF d] Cons.prems(3) by simp
  show ?case
  proof (cases "ys = []")
    case True
    have "?s1 = s\<lparr>elemValue := (\<lambda>e. if e \<in> set (y # ys) then (elemValue s e)\<lparr>referenced := False\<rparr> else elemValue s e),
                clockHand := listFront (xs @ y # ys)\<rparr>"
      using True nx by (cases xs) (auto simp: sweepClear_def fun_eq_iff)
    then show ?thesis
      using step True by simp
  next
    case False
    have h1: "clockHand ?s1 = Some (hd ys)"
      using False nx by (cases ys) (simp_all add: sweepClear_def)
    have r1: "\<forall>e \<in> set ys. referenced (elemValue ?s1 e)"
      using Cons.prems(1,5) by (auto simp: sweepClear_def)
    have ih: "evictLoop count maxAttempts ev (att + 1) ?s1 =
        evictLoop count maxAttempts ev (att + 1 + int (length ys))
          (?s1\<lparr>elemValue := (\<lambda>e. if e \<in> set ys then (elemValue ?s1 e)\<lparr>referenced := False\<rparr> else elemValue ?s1 e),
                clockHand := listFront ((xs @ [y]) @ ys)\<rparr>)"
      using Cons.prems False h1 r1 by (intro Cons.IH) simp_all
    have "?s1\<lparr>elemValue := (\<lambda>e. if e \<in> set ys then (elemValue ?s1 e)\<lparr>referenced := False\<rparr> else elemValue ?s1 e),
                clockHand := listFront ((xs @ [y]) @ ys)\<rparr> =
          s\<lparr>elemValue := (\<lambda>e. if e \<in> set (y # ys) then (elemValue s e)\<lparr>referenced := False\<rparr> else elemValue s e),
                clockHand := listFront (xs @ y # ys)\<rparr>"
      using Cons.prems(1) by (auto simp: sweepClear_def fun_eq_iff)
    then show ?thesis
      using step ih by (simp add: add.assoc)
  qed
qed

lemma evictLoop_remove_phase:
  assumes "distinct l" "itemsList s = l" "j < length l" "clockHand s = Some (hd l)"
    and "\<forall>e \<in> set (take j l). \<not> referenced (elemValue s e)"
    and "ev + int j \<le> count" "att + int j \<le> maxAttempts"
  shows "evictLoop count maxAttempts ev att s =
           evictLoop count maxAttempts (ev + int j) (att + int j)
             (s\<lparr>items := (\<lambda>k. if k \<in> (\<lambda>e. key (elemValue s e)) ` set (take j l) then None else items s k),
                elements := (\<lambda>k. if k \<in> (\<lambda>e. key (elemValue s e)) ` set (take j l) then None else elements s k),
                itemsList := drop j l,
                clockHand := Some (l ! j)\<rparr>)"
  using assms
proof (induction j arbitrary: s l ev att)
  case 0
  then have "Some (hd l) = Some (l ! 0)"
    by (cases l) simp_all
  then have "s\<lparr>items := items s, elements := elements s, itemsList := l, clockHand := Some (l ! 0)\<rparr> = s"
    using "0.prems" by (cases s) simp
  then show ?case
    by simp
next
  case (Suc j)
  from Suc.prems(3) obtain h t where l: "l = h # t"
    by (cases l) auto
  have t: "t \<noteq> []"
    using Suc.prems(3) l by auto
  let ?s1 = "sweepRemove s h"
  have step: "evictLoop count maxAttempts ev att s = evictLoop count maxAttempts (ev + 1) (att + 1) ?s1"
    using Suc.prems l t by (subst evictLoop_step) simp
  have h1: "clockHand ?s1 = Some (hd t)"
    using Suc.prems(2) l t by (cases t) (simp_all add: sweepRemove_def nextOrFirst_def)
  have ih: "evictLoop count maxAttempts (ev + 1) (att + 1) ?s1 =
           evictLoop count maxAttempts (ev + 1 + int j) (att + 1 + int j)
             (?s1\<lparr>items := (\<lambda>k. if k \<in> (\<lambda>e. key (elemValue ?s1 e)) ` set (take j t) then None else items ?s1 k),
                elements := (\<lambda>k. if k \<in> (\<lambda>e. key (elemValue ?s1 e)) ` set (take j t) then None else elements ?s1 k),
                itemsList := drop j t,
                clockHand := Some (t ! j)\<rparr>)"
    using Suc.prems l h1 by (intro Suc.IH) auto
  have "?s1\<lparr>items := (\<lambda>k. if k \<in> (\<lambda>e. key (elemValue ?s1 e)) ` set (take j t) then None else items ?s1 k),
                elements := (\<lambda>k. if k \<in> (\<lambda>e. key (elemValue ?s1 e)) ` set (take j t) then None else elements ?s1 k),
                itemsList := drop j t,
                clockHand := Some (t ! j)\<rparr> =
        s\<lparr>items := (\<lambda>k. if k \<in> (\<lambda>e. key (elemValue s e)) ` set (take (Suc j) l) then None else items s k),
                elements := (\<lambda>k. if k \<in> (\<lambda>e. key (elemValue s e)) ` set (take (Suc j) l) then None else elements s k),
                itemsList := drop (Suc j) l,
                clockHand := Some (l ! Suc j)\<rparr>"
    by (auto simp: l sweepRemove_def fun_eq_iff)
  then show ?case
    using step ih by (simp add: add.assoc add.commute add.left_commute)
qed

lemma filledShard_Nil: "filledShard [] newShard"
  by (simp add: filledShard_def newShard_def listFront_def)

lemma filledShard_snoc:
  assumes f: "filledShard kvs s" and k: "k \<notin> fst ` set kvs"
  shows "filledShard (kvs @ [(k, v)]) (shardPut s k v)"
proof -
  let ?N = "length kvs"
  have none: "items s k = None"
    using f k by (auto simp: filledShard_def)
  have l: "itemsList s = [0..<?N]" and n: "nextElem s = ?N" and h: "clockHand s = listFront [0..<?N]"
    and d: "dom (items s) = fst ` set kvs"
    and e: "\<forall>i<?N. key (elemValue s i) = fst (kvs ! i) \<and> referenced (elemValue s i) \<and>
        items s (fst (kvs ! i)) = Some (snd (kvs ! i))"
    using f by (simp_all add: filledShard_def)
  have hand: "(if clockHand s = None then Some ?N else clockHand s) = listFront [0..<Suc ?N]"
    using h by (cases "?N = 0") (simp_all add: listFront_def upt_rec)
  have old: "\<forall>i<?N. fst (kvs ! i) \<noteq> k"
    using k by (metis image_eqI nth_mem)
  show ?thesis
    unfolding filledShard_def shardPut_new [OF none]
    using l n d e hand old by (auto simp: nth_append less_Suc_eq)
qed

lemma filledShard_foldl:
  "distinct (map fst kvs) \<Longrightarrow> filledShard kvs (foldl (\<lambda>s (k, v). shardPut s k v) newShard kvs)"
proof (induction kvs rule: rev_induct)
  case Nil
  then show ?case by (simp add: filledShard_Nil)
next
  case (snoc x kvs)
  obtain k v where x: "x = (k, v)" by (cases x)
  from snoc.prems have "distinct (map fst kvs)" "k \<notin> fst ` set kvs"
    by (simp_all add: x)
  with snoc.IH show ?case
    by (simp add: x filledShard_snoc)
qed

lemma getShard_single: "shardCount c = 1 \<Longrightarrow> shards c = [s] \<Longrightarrow> getShard c k = Inr 0"
  by (simp add: getShard_def)

lemma run_puts_single:
  assumes "shards c = [s]" "shardCount c = 1"
  shows "\<exists>m. run c (map (\<lambda>(k, v). CallPut k v) kvs) =
           Inr (c\<lparr>shards := [foldl (\<lambda>s (k, v). shardPut s k v) s kvs], memUsage := m\<rparr>)"
  using assms
proof (induction kvs arbitrary: c s)
  case Nil
  have "c = c\<lparr>shards := [s], memUsage := memUsage c\<rparr>"
    using Nil by (cases c) simp
  then show ?case
    by (intro exI [of _ "memUsage c"]) simp
next
  case (Cons x kvs)
  obtain k v where x: "x = (k, v)" by (cases x)
  let ?c1 = "c\<lparr>shards := [shardPut s k v], memUsage := memUsage c + putDelta s k v\<rparr>"
  have p: "Put c k v = Inr ?c1"
    using Cons.prems by (simp add: Put_alt getShard_single)
  from Cons.IH [of ?c1 "shardPut s k v"] Cons.prems(2) obtain m
    where "run ?c1 (map (\<lambda>(k, v). CallPut k v) kvs) =
           Inr (?c1\<lparr>shards := [foldl (\<lambda>s (k, v). shardPut s k v) (shardPut s k v) kvs], memUsage := m\<rparr>)"
    by auto
  then show ?case
    using p by (intro exI [of _ m]) (simp add: x)
qed

lemma evict_filledShard:
  assumes f: "filledShard kvs s" and n: "0 < n" "n < length kvs"
  shows "\<exists>s'. evict s (int n) = Inr (int n, s') \<and> itemsList s' = [n..<length kvs] \<and>
           queueKeys s' = map fst (drop n kvs) \<and>
           items s' = (\<lambda>k. if k \<in> fst ` set (take n kvs) then None else items s k)"
proof -
  let ?N = "length kvs"
  let ?l = "[0..<?N]"
  have cons: "?l = 0 # [Suc 0..<?N]"
    using n by (intro upt_conv_Cons) linarith
  have lf: "listFront ?l = Some 0"
    by (subst cons) simp
  have hd: "hd ?l = 0"
    by (subst cons) simp
  have l: "itemsList s = ?l" and h: "clockHand s = Some 0"
    and e: "\<forall>i<?N. key (elemValue s i) = fst (kvs ! i) \<and> referenced (elemValue s i)"
    using f lf by (simp_all add: filledShard_def)
  let ?s1 = "s\<lparr>elemValue := (\<lambda>e. if e \<in> set ?l then (elemValue s e)\<lparr>referenced := False\<rparr> else elemValue s e),
                clockHand := listFront ([] @ ?l)\<rparr>"
  have p1: "evictLoop (int n) (int ?N * 2) 0 0 s = evictLoop (int n) (int ?N * 2) 0 (0 + int (length ?l)) ?s1"
    using n l h e hd by (intro evictLoop_clear_phase) auto
  have h1: "clockHand ?s1 = Some (hd ?l)"
    using lf hd by simp
  let ?keys = "(\<lambda>e. key (elemValue ?s1 e)) ` set (take n ?l)"
  let ?s2 = "?s1\<lparr>items := (\<lambda>k. if k \<in> ?keys then None else items ?s1 k),
                elements := (\<lambda>k. if k \<in> ?keys then None else elements ?s1 k),
                itemsList := drop n ?l,
                clockHand := Some (?l ! n)\<rparr>"
  have p2: "evictLoop (int n) (int ?N * 2) 0 (int ?N) ?s1 =
      evictLoop (int n) (int ?N * 2) (0 + int n) (int ?N + int n) ?s2"
    using n l h1 by (intro evictLoop_remove_phase) auto
  have p3: "evictLoop (int n) (int ?N * 2) (int n) (int ?N + int n) ?s2 = Inr (int n, int ?N + int n, ?s2)"
    by (subst evictLoop_step) simp
  have loop: "evictLoop (int n) (int ?N * 2) 0 0 s = Inr (int n, int ?N + int n, ?s2)"
    using p1 p2 p3 by simp
  have "?keys = (\<lambda>i. fst (kvs ! i)) ` {0..<n}"
    using n e by (auto simp: image_iff)
  also have "\<dots> = fst ` ((!) kvs ` {0..<n})"
    by (simp add: image_image)
  also have "\<dots> = fst ` set (take n kvs)"
    using n by (simp only: nth_image [of n kvs] less_imp_le)
  finally have keys: "?keys = fst ` set (take n kvs)" .
  have ne: "kvs \<noteq> []"
    using n by auto
  have ev: "evict s (int n) = Inr (int n, ?s2)"
    using ne l h loop by (simp add: evict_def)
  have b: "items ?s1 = items s"
    by simp
  have i2: "items ?s2 = (\<lambda>k. if k \<in> fst ` set (take n kvs) then None else items s k)"
    unfolding keys b by simp
  have l2: "itemsList ?s2 = [n..<?N]"
    by simp
  have "drop n (map ((!) kvs) [0..<?N]) = map ((!) kvs) [n..<?N]"
    by (simp add: drop_map del: map_nth)
  then have d: "drop n kvs = map ((!) kvs) [n..<?N]"
    by (simp add: map_nth)
  have "map (\<lambda>i. key (elemValue ?s2 i)) [n..<?N] = map (\<lambda>i. fst (kvs ! i)) [n..<?N]"
    using e by (intro map_cong) simp_all
  then have "queueKeys ?s2 = map fst (drop n kvs)"
    unfolding queueKeys_def l2 d by (simp add: comp_def)
  with ev i2 l2 show ?thesis
    by blast
qed

section \<open>Eviction in insertion order\<close>

lemma filledShard_queueKeys: "filledShard kvs s \<Longrightarrow> queueKeys s = map fst kvs"
  by (auto simp: filledShard_def queueKeys_def intro: nth_equalityI)

text \<open>
  Claim C5. With a single shard, put \<open>N\<close> pairs with distinct keys into the fresh cache,
  with no \<open>Get\<close> and no eviction in between, then call \<open>evictBatch n\<close> with \<open>n < N\<close>. The
  calls return; the cache held \<open>N\<close> entries and holds \<open>N - n\<close> afterwards; the queue of the
  shard held the keys in insertion order and holds the keys from the \<open>n\<close>-th on
  afterwards, in the same order: the first \<open>n\<close> inserted keys are the evicted ones. \<open>Get\<close>
  on each of these returns \<open>("", false)\<close>, and \<open>Get\<close> on each remaining key returns its value.
\<close>

theorem evictBatch_insertion_order:
  assumes "distinct (map fst kvs)" "n < length kvs"
  shows "\<exists>c1 c2. run (newCacheOf 1) (map (\<lambda>(k, v). CallPut k v) kvs) = Inr c1 \<and>
           evictBatch c1 (int n) = Inr c2 \<and>
           entryCount c1 = length kvs \<and> entryCount c2 = length kvs - n \<and>
           map queueKeys (shards c1) = [map fst kvs] \<and>
           map queueKeys (shards c2) = [map fst (drop n kvs)] \<and>
           (\<forall>i<length kvs. lookupAfter c2 [] (fst (kvs ! i)) =
              Inr (if i < n then ([], False) else (snd (kvs ! i), True)))"
proof -
  let ?N = "length kvs"
  define s where "s = foldl (\<lambda>s (k, v). shardPut s k v) newShard kvs"
  have f: "filledShard kvs s"
    unfolding s_def using assms(1) by (rule filledShard_foldl)
  have c0: "shards (newCacheOf 1) = [newShard]" "shardCount (newCacheOf 1) = 1"
    by (simp_all add: newCacheOf_def)
  from run_puts_single [OF c0, of kvs] obtain m
    where r0: "run (newCacheOf 1) (map (\<lambda>(k, v). CallPut k v) kvs) =
      Inr ((newCacheOf 1)\<lparr>shards := [s], memUsage := m\<rparr>)"
    unfolding s_def by blast
  define c1 where "c1 = (newCacheOf 1)\<lparr>shards := [s], memUsage := m\<rparr>"
  have r: "run (newCacheOf 1) (map (\<lambda>(k, v). CallPut k v) kvs) = Inr c1"
    using r0 by (simp only: c1_def)
  have sh1: "shards c1 = [s]" and sc1: "shardCount c1 = 1"
    by (simp_all add: c1_def newCacheOf_def)
  have wf1: "cache_wf c1"
    by (simp add: cache_wf_def sh1 sc1)
  have l: "itemsList s = [0..<?N]"
    and it: "\<forall>i<?N. items s (fst (kvs ! i)) = Some (snd (kvs ! i))"
    using f by (simp_all add: filledShard_def)
  have q1: "queueKeys s = map fst kvs"
    using f by (rule filledShard_queueKeys)
  have "\<exists>s'. evictBatch c1 (int n) = Inr (c1\<lparr>shards := [s']\<rparr>) \<and> itemsList s' = [n..<?N] \<and>
      queueKeys s' = map fst (drop n kvs) \<and>
      items s' = (\<lambda>k. if k \<in> fst ` set (take n kvs) then None else items s k)"
  proof (cases "n = 0")
    case True
    have "c1\<lparr>shards := [s]\<rparr> = c1"
      using sh1 by (cases c1) simp
    then have "evictBatch c1 (int n) = Inr (c1\<lparr>shards := [s]\<rparr>)"
      using True by (simp add: evictBatch_alt [OF wf1] sh1)
    then show ?thesis
      using True l q1 by (intro exI [of _ s]) simp
  next
    case False
    then have n: "0 < n" "n < ?N"
      using assms(2) by simp_all
    from evict_filledShard [OF f n] obtain s'
      where s': "evict s (int n) = Inr (int n, s')" "itemsList s' = [n..<?N]"
        "queueKeys s' = map fst (drop n kvs)"
        "items s' = (\<lambda>k. if k \<in> fst ` set (take n kvs) then None else items s k)"
      by blast
    have p: "max 1 (int n sdiv shardCount c1) = int n"
      using n(1) by (simp add: sc1 signed_divide_int_def max_def)
    have "evictBatch c1 (int n) = Inr (c1\<lparr>shards := [s']\<rparr>)"
      using n(1) s'(1) by (simp add: evictBatch_alt [OF wf1] p sh1)
    then show ?thesis
      using s' by blast
  qed
  then obtain s' where e: "evictBatch c1 (int n) = Inr (c1\<lparr>shards := [s']\<rparr>)"
    and l': "itemsList s' = [n..<?N]" and q': "queueKeys s' = map fst (drop n kvs)"
    and i': "items s' = (\<lambda>k. if k \<in> fst ` set (take n kvs) then None else items s k)"
    by blast
  define c2 where "c2 = c1\<lparr>shards := [s']\<rparr>"
  have sh2: "shards c2 = [s']" and sc2: "shardCount c2 = 1"
    by (simp_all add: c2_def sc1)
  have g: "\<And>k. getShard c2 k = Inr 0"
    using sc2 sh2 by (rule getShard_single)
  have look: "lookupAfter c2 [] (fst (kvs ! i)) = Inr (if i < n then ([], False) else (snd (kvs ! i), True))"
    if i: "i < ?N" for i
  proof (cases "i < n")
    case True
    then have "kvs ! i \<in> set (take n kvs)"
      using i by (auto simp: set_conv_nth intro!: exI [of _ i])
    then have "fst (kvs ! i) \<in> fst ` set (take n kvs)"
      by (rule imageI)
    then show ?thesis
      using True by (simp add: lookupAfter_def Get_alt g sh2 shardLookup_def i')
  next
    case False
    have "fst (kvs ! i) \<notin> fst ` set (take n kvs)"
    proof
      assume "fst (kvs ! i) \<in> fst ` set (take n kvs)"
      then obtain x where x: "x \<in> set (take n kvs)" "fst x = fst (kvs ! i)"
        by auto
      from x(1) obtain j where j: "j < n" "j < ?N" "x = kvs ! j"
        using assms(2) by (auto simp: set_conv_nth)
      then have "fst (kvs ! j) = fst (kvs ! i)"
        using x(2) by simp
      then have "j = i"
        using assms(1) i j(2) nth_eq_iff_index_eq [of "map fst kvs" j i] by simp
      then show False
        using False j(1) by simp
    qed
    then show ?thesis
      using False it i by (simp add: lookupAfter_def Get_alt g sh2 shardLookup_def i')
  qed
  have cnt: "entryCount c1 = ?N" "entryCount c2 = ?N - n"
    by (simp_all add: entryCount_def sh1 sh2 l l')
  have qs: "map queueKeys (shards c1) = [map fst kvs]" "map queueKeys (shards c2) = [map fst (drop n kvs)]"
    by (simp_all add: sh1 sh2 q1 q')
  have e2: "evictBatch c1 (int n) = Inr c2"
    using e by (simp only: c2_def)
  have all: "\<forall>i<length kvs. lookupAfter c2 [] (fst (kvs ! i)) =
              Inr (if i < n then ([], False) else (snd (kvs ! i), True))"
    using look by blast
  show ?thesis
    by (intro exI [of _ c1] exI [of _ c2] conjI) (fact r e2 cnt qs all)+
qed

theorem evictBatch_insertion_order_witness:
  "distinct (map fst [(''a'', ''1''), (''b'', ''2''), (''c'', ''3'')]) \<and>
   2 < length [(''a'', ''1''), (''b'', ''2''), (''c'', ''3'')] \<and>
   (\<exists>c1 c2. run (newCacheOf 1) [CallPut ''a'' ''1'', CallPut ''b'' ''2'', CallPut ''c'' ''3''] = Inr c1 \<and>
      evictBatch c1 2 = Inr c2 \<and> entryCount c1 = 3 \<and> entryCount c2 = 1 \<and>
      map queueKeys (shards c1) = [[''a'', ''b'', ''c'']] \<and>
      map queueKeys (shards c2) = [[''c'']] \<and>
      lookupAfter c2 [] ''a'' = Inr ([], False) \<and>
      lookupAfter c2 [] ''b'' = Inr ([], False) \<and>
      lookupAfter c2 [] ''c'' = Inr (''3'', True))"
proof -
  let ?kvs = "[(''a'', ''1''), (''b'', ''2''), (''c'', ''3'')]"
  have d: "distinct (map fst ?kvs)" and n: "2 < length ?kvs"
    by simp_all
  from evictBatch_insertion_order [OF d n] obtain c1 c2
    where all: "run (newCacheOf 1) (map (\<lambda>(k, v). CallPut k v) ?kvs) = Inr c1 \<and>
      evictBatch c1 (int 2) = Inr c2 \<and>
      entryCount c1 = length ?kvs \<and> entryCount c2 = length ?kvs - 2 \<and>
      map queueKeys (shards c1) = [map fst ?kvs] \<and>
      map queueKeys (shards c2) = [map fst (drop 2 ?kvs)] \<and>
      (\<forall>i<length ?kvs. lookupAfter c2 [] (fst (?kvs ! i)) =
              Inr (if i < 2 then ([], False) else (snd (?kvs ! i), True)))"
    by (elim exE) (erule that)
  note c = all [THEN conjunct1] all [THEN conjunct2, THEN conjunct1]
    all [THEN conjunct2, THEN conjunct2, THEN conjunct1]
    all [THEN conjunct2, THEN conjunct2, THEN conjunct2, THEN conjunct1]
    all [THEN conjunct2, THEN conjunct2, THEN conjunct2, THEN conjunct2, THEN conjunct1]
    all [THEN conjunct2, THEN conjunct2, THEN conjunct2, THEN conjunct2, THEN conjunct2, THEN conjunct1]
  note look = all [THEN conjunct2, THEN conjunct2, THEN conjunct2, THEN conjunct2, THEN conjunct2, THEN conjunct2]
  have "lookupAfter c2 [] ''a'' = Inr ([], False)"
    using look [rule_format, of 0] by simp
  moreover have "lookupAfter c2 [] ''b'' = Inr ([], False)"
    using look [rule_format, of 1] by simp
  moreover have "lookupAfter c2 [] ''c'' = Inr (''3'', True)"
    using look [rule_format, of 2] by simp
  moreover have "run (newCacheOf 1) [CallPut ''a'' ''1'', CallPut ''b'' ''2'', CallPut ''c'' ''3''] = Inr c1"
    "evictBatch c1 2 = Inr c2" "entryCount c1 = 3" "entryCount c2 = 1"
    "map queueKeys (shards c1) = [[''a'', ''b'', ''c'']]" "map queueKeys (shards c2) = [[''c'']]"
    using c by simp_all
  ultimately have "\<exists>c1 c2. run (newCacheOf 1) [CallPut ''a'' ''1'', CallPut ''b'' ''2'', CallPut ''c'' ''3''] = Inr c1 \<and>
      evictBatch c1 2 = Inr c2 \<and> entryCount c1 = 3 \<and> entryCount c2 = 1 \<and>
      map queueKeys (shards c1) = [[''a'', ''b'', ''c'']] \<and>
      map queueKeys (shards c2) = [[''c'']] \<and>
      lookupAfter c2 [] ''a'' = Inr ([], False) \<and>
      lookupAfter c2 [] ''b'' = Inr ([], False) \<and>
      lookupAfter c2 [] ''c'' = Inr (''3'', True)"
    by (intro exI [of _ c1] exI [of _ c2]) simp
  with d n show ?thesis
    by (intro conjI)
qed

end
